theory Spec2Isabelle
  imports Main
begin

section \<open>The host language: strings, plain objects, Map and Set\<close>

text \<open>
  The tokenizer of \<^verbatim>\<open>src/utils/tokenizer.ts\<close> is a TypeScript class. Its strings
  are sequences of UTF-16 code units, so a string is a list of code units
  (natural numbers); the ASCII literals of the source are written \<open>js ''...''\<close>.
\<close>

type_synonym jsstring = "nat list"

abbreviation js :: "string \<Rightarrow> jsstring" where
  "js s \<equiv> map of_char s"

text \<open>
  \<^verbatim>\<open>\s\<close> in a regular expression, \<^verbatim>\<open>trim\<close> and \<^verbatim>\<open>trimEnd\<close> share one class of
  code units: the white space and line terminators of ECMAScript.
\<close>

definition isWhiteSpace :: "nat \<Rightarrow> bool" where
  "isWhiteSpace c \<longleftrightarrow>
     c \<in> set [9, 10, 11, 12, 13, 32, 160, 5760, 8232, 8233, 8239, 8287, 12288, 65279]
     \<or> (8192 \<le> c \<and> c \<le> 8202)"

definition trimStart :: "jsstring \<Rightarrow> jsstring" where
  "trimStart s = dropWhile isWhiteSpace s"

definition trimEnd :: "jsstring \<Rightarrow> jsstring" where
  "trimEnd s = rev (dropWhile isWhiteSpace (rev s))"

definition trim :: "jsstring \<Rightarrow> jsstring" where
  "trim s = trimStart (trimEnd s)"

text \<open>\<^verbatim>\<open>s.replace(/([...])/g, " $1 ")\<close>: every code unit of the class gets a space on each side.\<close>

definition spaceAround :: "nat list \<Rightarrow> jsstring \<Rightarrow> jsstring" where
  "spaceAround cls s = concat (map (\<lambda>c. if c \<in> set cls then [32, c, 32] else [c]) s)"

text \<open>\<^verbatim>\<open>s.replace(/\s+/g, " ")\<close>: every maximal run of white space becomes one space.\<close>

function collapseWhiteSpace :: "jsstring \<Rightarrow> jsstring" where
  "collapseWhiteSpace [] = []"
| "collapseWhiteSpace (c # cs) =
     (if isWhiteSpace c then 32 # collapseWhiteSpace (dropWhile isWhiteSpace cs)
      else c # collapseWhiteSpace cs)"
  by pat_completeness auto
termination
  by (relation "measure length") (auto simp: less_Suc_eq_le length_dropWhile_le)

text \<open>\<^verbatim>\<open>s.split(sep)\<close> for a separator of one code unit; the empty string gives one empty piece.\<close>

fun splitOn :: "nat \<Rightarrow> jsstring \<Rightarrow> jsstring list" where
  "splitOn sep [] = [[]]"
| "splitOn sep (c # cs) =
     (if c = sep then [] # splitOn sep cs
      else (let r = splitOn sep cs in (c # hd r) # tl r))"

text \<open>
  \<^verbatim>\<open>String.prototype.toLowerCase\<close> is a built-in of the host, with the Unicode case
  mapping behind it; the functions below take it as the parameter \<open>toLowerCase\<close>.
  On ASCII text it is \<open>asciiLower\<close>.
\<close>

definition asciiLower :: "jsstring \<Rightarrow> jsstring" where
  "asciiLower s = map (\<lambda>c. if 65 \<le> c \<and> c \<le> 90 then c + 32 else c) s"

text \<open>
  \<^verbatim>\<open>vocab\<close> is a plain object created by the literal \<^verbatim>\<open>{}\<close>. Its own properties are
  kept here in insertion order. Three things of the host show through it:
  \<^item> a property read and the \<^verbatim>\<open>in\<close> operator fall back to \<^verbatim>\<open>Object.prototype\<close>, which
    has the twelve properties of \<open>objectPrototypeKeys\<close>;
  \<^item> an assignment to \<^verbatim>\<open>__proto__\<close> reaches the inherited setter, which ignores a
    number, and creates no own property;
  \<^item> \<^verbatim>\<open>Object.entries\<close> and the spread \<^verbatim>\<open>{...o}\<close> list the keys that are array indices
    first, in ascending numeric order, then the other keys in insertion order.
  The values stored are the integers among the numbers.
\<close>

type_synonym Vocab = "(jsstring \<times> int) list"

definition objectPrototypeKeys :: "jsstring list" where
  "objectPrototypeKeys =
     [js ''constructor'', js ''__defineGetter__'', js ''__defineSetter__'',
      js ''hasOwnProperty'', js ''__lookupGetter__'', js ''__lookupSetter__'',
      js ''isPrototypeOf'', js ''propertyIsEnumerable'', js ''toString'',
      js ''valueOf'', js ''__proto__'', js ''toLocaleString'']"

datatype jsval = Undefined | Num int | Inherited jsstring

definition hasOwn :: "Vocab \<Rightarrow> jsstring \<Rightarrow> bool" where
  "hasOwn v k \<longleftrightarrow> k \<in> set (map fst v)"

text \<open>\<^verbatim>\<open>k in v\<close>\<close>

definition propIn :: "Vocab \<Rightarrow> jsstring \<Rightarrow> bool" where
  "propIn v k \<longleftrightarrow> hasOwn v k \<or> k \<in> set objectPrototypeKeys"

text \<open>\<^verbatim>\<open>v[k]\<close>\<close>

definition propGet :: "Vocab \<Rightarrow> jsstring \<Rightarrow> jsval" where
  "propGet v k =
     (case map_of v k of
        Some n \<Rightarrow> Num n
      | None \<Rightarrow> if k \<in> set objectPrototypeKeys then Inherited k else Undefined)"

text \<open>Writing an own data property: in place when the key is there, at the end otherwise.\<close>

fun defineOwn :: "Vocab \<Rightarrow> jsstring \<Rightarrow> int \<Rightarrow> Vocab" where
  "defineOwn [] k n = [(k, n)]"
| "defineOwn ((k', n') # v) k n =
     (if k' = k then (k, n) # v else (k', n') # defineOwn v k n)"

text \<open>\<^verbatim>\<open>v[k] = n\<close>\<close>

definition propSet :: "Vocab \<Rightarrow> jsstring \<Rightarrow> int \<Rightarrow> Vocab" where
  "propSet v k n =
     (if k = js ''__proto__'' \<and> \<not> hasOwn v k then v else defineOwn v k n)"

text \<open>
  An array index is the canonical decimal numeral of an integer below \<open>2^32 - 1\<close>.
\<close>

definition digitsValue :: "jsstring \<Rightarrow> int" where
  "digitsValue s = foldl (\<lambda>a c. 10 * a + (int c - 48)) 0 s"

definition isArrayIndex :: "jsstring \<Rightarrow> bool" where
  "isArrayIndex s \<longleftrightarrow>
     s \<noteq> [] \<and> (\<forall>c \<in> set s. 48 \<le> c \<and> c \<le> 57) \<and> (length s = 1 \<or> hd s \<noteq> 48)
     \<and> digitsValue s < 4294967295"

text \<open>\<^verbatim>\<open>Object.entries(v)\<close>; the stable \<open>sort_key\<close> orders the array indices.\<close>

definition ownEntries :: "Vocab \<Rightarrow> (jsstring \<times> int) list" where
  "ownEntries v =
     sort_key (\<lambda>e. digitsValue (fst e)) (filter (\<lambda>e. isArrayIndex (fst e)) v)
     @ filter (\<lambda>e. \<not> isArrayIndex (fst e)) v"

text \<open>
  \<^verbatim>\<open>new Set(tokens)\<close> iterates in insertion order, each value once; a \<^verbatim>\<open>Map\<close> keeps the
  place of a key whose value is set again. Neither has a prototype behind its keys.
\<close>

definition setAdd :: "'a list \<Rightarrow> 'a \<Rightarrow> 'a list" where
  "setAdd s x = (if x \<in> set s then s else s @ [x])"

definition newSet :: "'a list \<Rightarrow> 'a list" where
  "newSet xs = foldl setAdd [] xs"

definition mapGet :: "('k \<times> 'v) list \<Rightarrow> 'k \<Rightarrow> 'v option" where
  "mapGet m k = map_of m k"

fun mapSet :: "('k \<times> 'v) list \<Rightarrow> 'k \<Rightarrow> 'v \<Rightarrow> ('k \<times> 'v) list" where
  "mapSet [] k x = [(k, x)]"
| "mapSet ((k', x') # m) k x =
     (if k' = k then (k, x) # m else (k', x') # mapSet m k x)"

section \<open>The class \<^verbatim>\<open>CustomTokenizer\<close>\<close>

record TokenizerOptions =
  optSpecialTokens :: "jsstring list option"
  optCaseSensitive :: "bool option"
  optMaxVocabSize :: "int option"

text \<open>
  \<^verbatim>\<open>reverseVocab\<close> is only read and written under the keys \<^verbatim>\<open>String(id)\<close> of numbers,
  none of which \<^verbatim>\<open>Object.prototype\<close> has, and is never enumerated: a map from the
  (integer) ids.
\<close>

type_synonym ReverseVocab = "int \<Rightarrow> jsstring option"

text \<open>The fields of the class; \<^verbatim>\<open>maxVocabSize\<close> is \<open>None\<close> when it is undefined.\<close>

record tokenizer =
  vocab :: Vocab
  reverseVocab :: ReverseVocab
  specialTokens :: "jsstring list"
  caseSensitive :: bool
  maxVocabSize :: "int option"

text \<open>\<^verbatim>\<open>Object.keys(this.vocab).length\<close>\<close>

definition vocabSize :: "tokenizer \<Rightarrow> int" where
  "vocabSize T = int (length (vocab T))"

definition buildReverseVocabFromVocab :: "tokenizer \<Rightarrow> tokenizer" where
  "buildReverseVocabFromVocab T =
     T\<lparr>reverseVocab :=
         foldl (\<lambda>r (token, id). r(id \<mapsto> token)) Map.empty (ownEntries (vocab T))\<rparr>"

definition initializeSpecialTokens :: "tokenizer \<Rightarrow> tokenizer" where
  "initializeSpecialTokens T =
     buildReverseVocabFromVocab
       (T\<lparr>vocab :=
           foldl (\<lambda>v (token, index). propSet v token (int index)) []
             (zip (specialTokens T) [0 ..< length (specialTokens T)])\<rparr>)"

definition CustomTokenizer :: "TokenizerOptions \<Rightarrow> tokenizer" where
  "CustomTokenizer options =
     initializeSpecialTokens
       \<lparr>vocab = [], reverseVocab = Map.empty,
        specialTokens =
          (case optSpecialTokens options of
             None \<Rightarrow> [js ''<PAD>'', js ''<UNK>'', js ''<CLS>'', js ''<SEP>'']
           | Some toks \<Rightarrow> toks),
        caseSensitive = (case optCaseSensitive options of None \<Rightarrow> False | Some b \<Rightarrow> b),
        maxVocabSize = optMaxVocabSize options\<rparr>"

text \<open>
  The marks the splitter sets apart: \<^verbatim>\<open>. ! ? ; : ( )\<close>, the apostrophe (39), the double
  quote (34), the en dash (8211) and the em dash (8212); then the comma.
\<close>

definition splitMarks :: "nat list" where
  "splitMarks = js ''.!?;:()'' @ [39, 34, 8211, 8212]"

definition splitTextTokens :: "(jsstring \<Rightarrow> jsstring) \<Rightarrow> tokenizer \<Rightarrow> jsstring \<Rightarrow> jsstring list" where
  "splitTextTokens toLowerCase T text =
     (let processedText = (if caseSensitive T then text else toLowerCase text)
      in filter (\<lambda>token. length token > 0)
           (splitOn 32
              (trim (collapseWhiteSpace
                 (spaceAround (js '','') (spaceAround splitMarks processedText))))))"

text \<open>
  \<^verbatim>\<open>this.maxVocabSize && this.vocabSize >= this.maxVocabSize\<close>: an undefined limit and
  the limit 0 are both falsy.
\<close>

definition limitReached :: "tokenizer \<Rightarrow> bool" where
  "limitReached T =
     (case maxVocabSize T of
        None \<Rightarrow> False
      | Some m \<Rightarrow> m \<noteq> 0 \<and> vocabSize T \<ge> m)"

text \<open>
  The loop over the tokens, which both build methods have: leave at the limit
  (\<^verbatim>\<open>break\<close>), otherwise give a token that is not \<^verbatim>\<open>in\<close> the vocabulary the current
  size as its id. (The text build also writes a warning to the console before it
  leaves; the console is not part of the state here.)
\<close>

fun addTokens :: "tokenizer \<Rightarrow> jsstring list \<Rightarrow> tokenizer" where
  "addTokens T [] = T"
| "addTokens T (token # rest) =
     (if limitReached T then T
      else addTokens
             (if \<not> propIn (vocab T) token
              then T\<lparr>vocab := propSet (vocab T) token (vocabSize T)\<rparr>
              else T)
             rest)"

definition buildVocabFromInputText :: "(jsstring \<Rightarrow> jsstring) \<Rightarrow> tokenizer \<Rightarrow> jsstring \<Rightarrow> tokenizer" where
  "buildVocabFromInputText toLowerCase T text =
     (let T1 = initializeSpecialTokens T;
          tokens = splitTextTokens toLowerCase T1 text;
          uniqueTokens = newSet tokens
      in buildReverseVocabFromVocab (addTokens T1 uniqueTokens))"

text \<open>\<^verbatim>\<open>tokenCounts.set(token, (tokenCounts.get(token) || 0) + 1)\<close>\<close>

definition countToken :: "(jsstring \<times> int) list \<Rightarrow> jsstring \<Rightarrow> (jsstring \<times> int) list" where
  "countToken tokenCounts token =
     mapSet tokenCounts token
       ((case mapGet tokenCounts token of None \<Rightarrow> 0 | Some c \<Rightarrow> c) + 1)"

definition countCorpus :: "(jsstring \<Rightarrow> jsstring) \<Rightarrow> tokenizer \<Rightarrow> jsstring list \<Rightarrow> (jsstring \<times> int) list" where
  "countCorpus toLowerCase T texts =
     foldl (\<lambda>tokenCounts text. foldl countToken tokenCounts (splitTextTokens toLowerCase T text))
       [] texts"

text \<open>
  \<^verbatim>\<open>Array.prototype.sort\<close> is stable, so sorting with the comparator
  \<^verbatim>\<open>freqB - freqA\<close> is the stable sort on the key \<open>- freq\<close>.
\<close>

definition sortedTokens :: "(jsstring \<times> int) list \<Rightarrow> jsstring list" where
  "sortedTokens tokenCounts = map fst (sort_key (\<lambda>e. - snd e) tokenCounts)"

definition buildVocabFromCorpus :: "(jsstring \<Rightarrow> jsstring) \<Rightarrow> tokenizer \<Rightarrow> jsstring list \<Rightarrow> tokenizer" where
  "buildVocabFromCorpus toLowerCase T texts =
     (let T1 = initializeSpecialTokens T;
          tokenCounts = countCorpus toLowerCase T1 texts
      in buildReverseVocabFromVocab (addTokens T1 (sortedTokens tokenCounts)))"

datatype error = UnkNotFound | ClsSepNotFound

text \<open>The callback of \<^verbatim>\<open>tokens.map\<close> in \<^verbatim>\<open>encode\<close>, and the map that a throw leaves.\<close>

definition tokenToId :: "Vocab \<Rightarrow> jsstring \<Rightarrow> error + jsval" where
  "tokenToId v token =
     (let tokenId = propGet v token
      in if tokenId = Undefined
         then (let unkId = propGet v (js ''<UNK>'')
               in if unkId = Undefined then Inl UnkNotFound else Inr unkId)
         else Inr tokenId)"

fun mapTokens :: "Vocab \<Rightarrow> jsstring list \<Rightarrow> error + jsval list" where
  "mapTokens v [] = Inr []"
| "mapTokens v (token # rest) =
     (case tokenToId v token of
        Inl e \<Rightarrow> Inl e
      | Inr x \<Rightarrow> (case mapTokens v rest of Inl e \<Rightarrow> Inl e | Inr xs \<Rightarrow> Inr (x # xs)))"

definition encode :: "(jsstring \<Rightarrow> jsstring) \<Rightarrow> tokenizer \<Rightarrow> jsstring \<Rightarrow> error + jsval list" where
  "encode toLowerCase T text =
     (case mapTokens (vocab T) (splitTextTokens toLowerCase T text) of
        Inl e \<Rightarrow> Inl e
      | Inr tokenIds \<Rightarrow>
          (let clsId = propGet (vocab T) (js ''<CLS>'');
               sepId = propGet (vocab T) (js ''<SEP>'')
           in if clsId = Undefined \<or> sepId = Undefined then Inl ClsSepNotFound
              else Inr ([clsId] @ tokenIds @ [sepId])))"

text \<open>
  In \<^verbatim>\<open>decode\<close> a token is a string or, for an id the reverse vocabulary lacks,
  \<^verbatim>\<open>undefined\<close> (\<open>None\<close>). \<^verbatim>\<open>includes\<close> finds no \<^verbatim>\<open>undefined\<close> among strings; the
  regular expression and \<^verbatim>\<open>+=\<close> turn \<^verbatim>\<open>undefined\<close> into the string "undefined".
  The marks of the decoder are those of the splitter and \<^verbatim>\<open>, ` -\<close>.
\<close>

definition tokenString :: "jsstring option \<Rightarrow> jsstring" where
  "tokenString token = (case token of None \<Rightarrow> js ''undefined'' | Some s \<Rightarrow> s)"

definition decodeMarks :: "nat list" where
  "decodeMarks = js ''.,!?;:()'' @ [39, 34, 96, 8211, 8212, 45]"

definition isPunctuation :: "jsstring option \<Rightarrow> bool" where
  "isPunctuation token \<longleftrightarrow>
     (case tokenString token of [c] \<Rightarrow> c \<in> set decodeMarks | _ \<Rightarrow> False)"

fun mergeTokens :: "jsstring \<Rightarrow> jsstring option list \<Rightarrow> jsstring" where
  "mergeTokens result [] = result"
| "mergeTokens result (token # rest) =
     (if isPunctuation token
      then mergeTokens
             (let r = trimEnd result @ tokenString token
              in if rest \<noteq> [] then r @ [32] else r) rest
      else mergeTokens
             (let r = result @ tokenString token
              in if rest \<noteq> [] then r @ [32] else r) rest)"

definition decode :: "tokenizer \<Rightarrow> int list \<Rightarrow> jsstring" where
  "decode T encodedTokens =
     (let decodedTokens = map (reverseVocab T) encodedTokens;
          filteredTokens =
            filter (\<lambda>token. \<not> (case token of None \<Rightarrow> False
                                  | Some s \<Rightarrow> s \<in> set (specialTokens T)))
              decodedTokens
      in trim (mergeTokens [] filteredTokens))"

definition getTokenId :: "tokenizer \<Rightarrow> jsstring \<Rightarrow> jsval" where
  "getTokenId T token = propGet (vocab T) token"

definition getToken :: "tokenizer \<Rightarrow> int \<Rightarrow> jsstring option" where
  "getToken T i = reverseVocab T i"

definition hasToken :: "tokenizer \<Rightarrow> jsstring \<Rightarrow> bool" where
  "hasToken T token = propIn (vocab T) token"

record tokenizerJSON =
  jsonVocab :: Vocab
  jsonSpecialTokens :: "jsstring list"
  jsonCaseSensitive :: bool

definition toJSON :: "tokenizer \<Rightarrow> tokenizerJSON" where
  "toJSON T =
     \<lparr>jsonVocab = vocab T, jsonSpecialTokens = specialTokens T,
      jsonCaseSensitive = caseSensitive T\<rparr>"

text \<open>\<^verbatim>\<open>{ ...o }\<close>: a new object that gets the own properties of \<open>o\<close> in the order of its keys.\<close>

definition spread :: "Vocab \<Rightarrow> Vocab" where
  "spread v = foldl (\<lambda>obj (k, n). defineOwn obj k n) [] (ownEntries v)"

text \<open>The getter \<^verbatim>\<open>vocabulary\<close> hands out a copy.\<close>

definition vocabulary :: "tokenizer \<Rightarrow> Vocab" where
  "vocabulary T = spread (vocab T)"

definition fromJSON :: "tokenizerJSON \<Rightarrow> tokenizer" where
  "fromJSON data =
     (let tokenizer0 =
            CustomTokenizer
              \<lparr>optSpecialTokens = Some (jsonSpecialTokens data),
               optCaseSensitive = Some (jsonCaseSensitive data),
               optMaxVocabSize = None\<rparr>
      in buildReverseVocabFromVocab (tokenizer0\<lparr>vocab := spread (jsonVocab data)\<rparr>))"

section \<open>Notions the claims are stated with\<close>

text \<open>The distinct elements of a list, each at the place where it is first seen.\<close>

fun firstSeen :: "'a list \<Rightarrow> 'a list" where
  "firstSeen [] = []"
| "firstSeen (x # xs) = x # removeAll x (firstSeen xs)"

text \<open>The position at which an element is first seen (the length, when it is not there).\<close>

definition firstOccurrence :: "'a list \<Rightarrow> 'a \<Rightarrow> nat" where
  "firstOccurrence xs x = length (takeWhile (\<lambda>y. y \<noteq> x) xs)"

text \<open>
  What a size limit leaves of the candidates for new ids once \<open>k\<close> ids are taken:
  all of them without a limit (undefined or 0), the first \<open>m - k\<close> otherwise.
\<close>

definition underLimit :: "int option \<Rightarrow> nat \<Rightarrow> 'a list \<Rightarrow> 'a list" where
  "underLimit mx k xs =
     (case mx of
        None \<Rightarrow> xs
      | Some m \<Rightarrow> if m = 0 then xs else take (nat (m - int k)) xs)"

text \<open>A sequence of build operations on one tokenizer.\<close>

datatype buildOp = InputText jsstring | Corpus "jsstring list"

fun applyBuild :: "(jsstring \<Rightarrow> jsstring) \<Rightarrow> tokenizer \<Rightarrow> buildOp \<Rightarrow> tokenizer" where
  "applyBuild toLowerCase T (InputText text) = buildVocabFromInputText toLowerCase T text"
| "applyBuild toLowerCase T (Corpus texts) = buildVocabFromCorpus toLowerCase T texts"

definition runBuilds :: "(jsstring \<Rightarrow> jsstring) \<Rightarrow> tokenizer \<Rightarrow> buildOp list \<Rightarrow> tokenizer" where
  "runBuilds toLowerCase T ops = foldl (applyBuild toLowerCase) T ops"

text \<open>Words joined by single spaces.\<close>

fun joinSpace :: "jsstring list \<Rightarrow> jsstring" where
  "joinSpace [] = []"
| "joinSpace [w] = w"
| "joinSpace (w # ws) = w @ [32] @ joinSpace ws"

text \<open>
  The tokenizers a program can have: made by the constructor, changed by a build
  method, or loaded by \<^verbatim>\<open>fromJSON\<close> from data whose vocabulary is an object (its keys
  are distinct).
\<close>

inductive reachable :: "(jsstring \<Rightarrow> jsstring) \<Rightarrow> tokenizer \<Rightarrow> bool"
  for toLowerCase :: "jsstring \<Rightarrow> jsstring" where
  constructed: "reachable toLowerCase (CustomTokenizer options)"
| built: "reachable toLowerCase T \<Longrightarrow> reachable toLowerCase (applyBuild toLowerCase T b)"
| loaded: "distinct (map fst (jsonVocab d)) \<Longrightarrow> reachable toLowerCase (fromJSON d)"

text \<open>\<open>x\<close> stands in the list, and \<open>y\<close> stands somewhere after it.\<close>

fun before :: "'a \<Rightarrow> 'a \<Rightarrow> 'a list \<Rightarrow> bool" where
  "before x y [] = False"
| "before x y (z # zs) = ((z = x \<and> y \<in> set zs) \<or> before x y zs)"

text \<open>The words of a text: its maximal runs of code units that are not white space.\<close>

function wordsOf :: "jsstring \<Rightarrow> jsstring list" where
  "wordsOf [] = []"
| "wordsOf (c # cs) =
     (if isWhiteSpace c then wordsOf (dropWhile isWhiteSpace cs)
      else (c # takeWhile (\<lambda>x. \<not> isWhiteSpace x) cs)
             # wordsOf (dropWhile (\<lambda>x. \<not> isWhiteSpace x) cs))"
  by pat_completeness auto
termination
  by (relation "measure length") (auto simp: less_Suc_eq_le length_dropWhile_le)


text \<open>
  Tokens written one after the other: the first as it is, every later one after a
  single space, unless it is a punctuation mark (\<open>isPunctuation\<close>: one of the marks of
  \<^verbatim>\<open>decode\<close>, alone), which follows directly.
\<close>

definition joinTokens :: "jsstring option list \<Rightarrow> jsstring" where
  "joinTokens toks =
     (case toks of
        [] \<Rightarrow> []
      | t # ts \<Rightarrow>
          tokenString t
          @ concat (map (\<lambda>u. (if isPunctuation u then [] else [32]) @ tokenString u) ts))"


section \<open>Tokenizers and texts of the examples\<close>

definition defaultOptions :: TokenizerOptions where
  "defaultOptions = \<lparr>optSpecialTokens = None, optCaseSensitive = None, optMaxVocabSize = None\<rparr>"

text \<open>Case-sensitive, with room for two tokens after the four default special tokens.\<close>

definition limitedOptions :: TokenizerOptions where
  "limitedOptions =
     \<lparr>optSpecialTokens = None, optCaseSensitive = Some True, optMaxVocabSize = Some 6\<rparr>"

text \<open>The limit is the number of the default special tokens.\<close>

definition fullOptions :: TokenizerOptions where
  "fullOptions = \<lparr>optSpecialTokens = None, optCaseSensitive = None, optMaxVocabSize = Some 4\<rparr>"

text \<open>The limit is below the number of the default special tokens.\<close>

definition smallLimitOptions :: TokenizerOptions where
  "smallLimitOptions =
     \<lparr>optSpecialTokens = None, optCaseSensitive = None, optMaxVocabSize = Some 2\<rparr>"

text \<open>A special token configured twice.\<close>

definition repeatedOptions :: TokenizerOptions where
  "repeatedOptions =
     \<lparr>optSpecialTokens = Some [js ''a'', js ''b'', js ''a''], optCaseSensitive = None,
      optMaxVocabSize = None\<rparr>"

text \<open>Special tokens under other names than the default ones.\<close>

definition bracketOptions :: TokenizerOptions where
  "bracketOptions =
     \<lparr>optSpecialTokens = Some [js ''[PAD]'', js ''[UNK]'', js ''[CLS]'', js ''[SEP]''],
      optCaseSensitive = None, optMaxVocabSize = None\<rparr>"

text \<open>Only a start and an end token, under the names \<^verbatim>\<open>encode\<close> looks for; no unknown token.\<close>

definition startEndOptions :: TokenizerOptions where
  "startEndOptions =
     \<lparr>optSpecialTokens = Some [js ''<CLS>'', js ''<SEP>''], optCaseSensitive = None,
      optMaxVocabSize = None\<rparr>"

section \<open>Plain objects\<close>

lemma defineOwn_fresh: "k \<notin> fst ` set v \<Longrightarrow> defineOwn v k n = v @ [(k, n)]"
  by (induction v k n rule: defineOwn.induct) auto

lemma protoKey_proto: "js ''__proto__'' \<in> set objectPrototypeKeys"
  by (simp add: objectPrototypeKeys_def)

lemma propSet_fresh: "\<not> propIn v k \<Longrightarrow> propSet v k n = v @ [(k, n)]"
  using protoKey_proto by (auto simp: propIn_def propSet_def hasOwn_def defineOwn_fresh)

lemma propIn_append:
  "propIn (v @ [(k, n)]) t \<longleftrightarrow> t = k \<or> propIn v t"
  by (auto simp: propIn_def hasOwn_def)

section \<open>The loop\<close>

lemma addTokens_fields [simp]:
  "specialTokens (addTokens T ts) = specialTokens T"
  "caseSensitive (addTokens T ts) = caseSensitive T"
  "maxVocabSize (addTokens T ts) = maxVocabSize T"
  "reverseVocab (addTokens T ts) = reverseVocab T"
  by (induction T ts rule: addTokens.induct; simp)+

lemma underLimit_Nil [simp]: "underLimit mx k [] = []"
  by (simp add: underLimit_def split: option.splits)

lemma underLimit_reached:
  "limitReached T \<Longrightarrow> underLimit (maxVocabSize T) (length (vocab T)) xs = []"
  by (auto simp: limitReached_def underLimit_def vocabSize_def split: option.splits)

lemma underLimit_Cons:
  "\<not> limitReached T \<Longrightarrow>
   underLimit (maxVocabSize T) (length (vocab T)) (x # xs) =
   x # underLimit (maxVocabSize T) (Suc (length (vocab T))) xs"
  by (auto simp: limitReached_def underLimit_def vocabSize_def take_Cons' nat_diff_distrib split: option.splits
      intro!: arg_cong2[where f=take])

lemma addTokens_vocab:
  "distinct ts \<Longrightarrow>
   vocab (addTokens T ts) =
     (let added = underLimit (maxVocabSize T) (length (vocab T))
                    (filter (\<lambda>t. \<not> propIn (vocab T) t) ts)
      in vocab T @ zip added (map int [length (vocab T) ..< length (vocab T) + length added]))"
proof (induction ts arbitrary: T)
  case Nil
  then show ?case by simp
next
  case (Cons token rest)
  show ?case
  proof (cases "limitReached T")
    case True
    then show ?thesis by (simp add: underLimit_reached)
  next
    case False
    note nlim = this
    show ?thesis
    proof (cases "propIn (vocab T) token")
      case True
      with nlim Cons show ?thesis by simp
    next
      case False
      let ?T' = "T\<lparr>vocab := propSet (vocab T) token (vocabSize T)\<rparr>"
      have v': "vocab ?T' = vocab T @ [(token, int (length (vocab T)))]"
        using False by (simp add: propSet_fresh vocabSize_def)
      have flt: "filter (\<lambda>t. \<not> propIn (vocab ?T') t) rest = filter (\<lambda>t. \<not> propIn (vocab T) t) rest"
        using Cons.prems by (auto simp: v' propIn_append intro!: filter_cong)
      have IH: "vocab (addTokens ?T' rest) =
         (let added = underLimit (maxVocabSize ?T') (length (vocab ?T'))
                    (filter (\<lambda>t. \<not> propIn (vocab ?T') t) rest)
          in vocab ?T' @ zip added (map int [length (vocab ?T') ..< length (vocab ?T') + length added]))"
        using Cons.IH[of ?T'] Cons.prems by simp
      have "vocab (addTokens T (token # rest)) = vocab (addTokens ?T' rest)"
        using nlim False by simp
      also have "\<dots> = (let added = underLimit (maxVocabSize T) (Suc (length (vocab T)))
                    (filter (\<lambda>t. \<not> propIn (vocab T) t) rest)
          in vocab T @ (token, int (length (vocab T))) # zip added (map int [Suc (length (vocab T)) ..< Suc (length (vocab T)) + length added]))"
        unfolding IH flt by (simp add: v' Let_def)
      also have "\<dots> = (let added = underLimit (maxVocabSize T) (length (vocab T))
                    (filter (\<lambda>t. \<not> propIn (vocab T) t) (token # rest))
      in vocab T @ zip added (map int [length (vocab T) ..< length (vocab T) + length added]))"
        using False nlim by (simp add: underLimit_Cons Let_def upt_rec[of "length (vocab T)"])
      finally show ?thesis .
    qed
  qed
qed

section \<open>Special tokens\<close>

lemma buildReverse_fields [simp]:
  "vocab (buildReverseVocabFromVocab T) = vocab T"
  "specialTokens (buildReverseVocabFromVocab T) = specialTokens T"
  "caseSensitive (buildReverseVocabFromVocab T) = caseSensitive T"
  "maxVocabSize (buildReverseVocabFromVocab T) = maxVocabSize T"
  by (simp_all add: buildReverseVocabFromVocab_def)

lemma initialize_fields [simp]:
  "specialTokens (initializeSpecialTokens T) = specialTokens T"
  "caseSensitive (initializeSpecialTokens T) = caseSensitive T"
  "maxVocabSize (initializeSpecialTokens T) = maxVocabSize T"
  by (simp_all add: initializeSpecialTokens_def)

lemma splitTextTokens_cong:
  "caseSensitive T = caseSensitive T' \<Longrightarrow> splitTextTokens lc T = splitTextTokens lc T'"
  by (rule ext) (simp add: splitTextTokens_def)

lemma specials_foldl:
  "distinct xs \<Longrightarrow> js ''__proto__'' \<notin> set xs \<Longrightarrow> set xs \<inter> fst ` set v = {} \<Longrightarrow>
   foldl (\<lambda>v (token, index). propSet v token (int index)) v (zip xs [n ..< n + length xs])
   = v @ zip xs (map int [n ..< n + length xs])"
proof (induction xs arbitrary: v n)
  case Nil
  then show ?case by simp
next
  case (Cons x xs)
  have step: "propSet v x (int n) = v @ [(x, int n)]"
    using Cons.prems by (auto simp: propSet_def defineOwn_fresh)
  have "foldl (\<lambda>v (token, index). propSet v token (int index)) (v @ [(x, int n)]) (zip xs [Suc n ..< Suc n + length xs])
      = (v @ [(x, int n)]) @ zip xs (map int [Suc n ..< Suc n + length xs])"
    using Cons.prems by (intro Cons.IH) auto
  moreover have "[n ..< n + length (x # xs)] = n # [Suc n ..< n + length (x # xs)]"
    by (rule upt_conv_Cons) simp
  moreover have "n + length (x # xs) = Suc n + length xs"
    by simp
  ultimately show ?case
    by (simp only: zip_Cons_Cons foldl_Cons prod.case step list.map append_Cons append_Nil append_assoc)
qed

lemma initialize_vocab:
  "distinct (specialTokens T) \<Longrightarrow> js ''__proto__'' \<notin> set (specialTokens T) \<Longrightarrow>
   vocab (initializeSpecialTokens T) =
     zip (specialTokens T) (map int [0 ..< length (specialTokens T)])"
  using specials_foldl[of "specialTokens T" "[]" 0]
  by (simp add: initializeSpecialTokens_def)

section \<open>Keys stay distinct\<close>

lemma defineOwn_keys: "fst ` set (defineOwn v k n) = insert k (fst ` set v)"
  by (induction v k n rule: defineOwn.induct) auto

lemma defineOwn_distinct: "distinct (map fst v) \<Longrightarrow> distinct (map fst (defineOwn v k n))"
  by (induction v k n rule: defineOwn.induct) (auto simp: defineOwn_keys)

lemma propSet_distinct: "distinct (map fst v) \<Longrightarrow> distinct (map fst (propSet v k n))"
  by (simp add: propSet_def defineOwn_distinct)

lemma propSet_keys: "fst ` set (propSet v k n) \<subseteq> insert k (fst ` set v)"
  by (auto simp: propSet_def defineOwn_keys)

lemma specials_foldl_keys:
  "fst ` set (foldl (\<lambda>v (token, index). propSet v token (int index)) v (zip xs ns))
   \<subseteq> fst ` set v \<union> set xs"
proof (induction xs arbitrary: v ns)
  case Nil
  then show ?case by simp
next
  case (Cons x xs)
  show ?case
  proof (cases ns)
    case Nil
    then show ?thesis by auto
  next
    case (Cons n ns')
    with Cons.IH[of "propSet v x (int n)" ns'] propSet_keys[of v x "int n"]
    show ?thesis by auto
  qed
qed

lemma specials_foldl_distinct:
  "distinct (map fst v) \<Longrightarrow>
   distinct (map fst (foldl (\<lambda>v (token, index). propSet v token (int index)) v (zip xs ns)))"
proof (induction xs arbitrary: v ns)
  case Nil
  then show ?case by simp
next
  case (Cons x xs)
  then show ?case by (cases ns) (simp_all add: propSet_distinct)
qed


lemma initialize_keys: "fst ` set (vocab (initializeSpecialTokens T)) \<subseteq> set (specialTokens T)"
  using specials_foldl_keys[of "[]" "specialTokens T"]
  by (simp add: initializeSpecialTokens_def)

lemma initialize_distinct: "distinct (map fst (vocab (initializeSpecialTokens T)))"
  using specials_foldl_distinct[of "[]"]
  by (simp add: initializeSpecialTokens_def)


section \<open>The reverse vocabulary\<close>

lemma reverse_foldl_out:
  "i \<notin> snd ` set es \<Longrightarrow> foldl (\<lambda>r (token, id). r(id \<mapsto> token)) r es i = r i"
  by (induction es arbitrary: r) auto

lemma reverse_foldl_in:
  "distinct (map snd es) \<Longrightarrow> (t, i) \<in> set es \<Longrightarrow>
   foldl (\<lambda>r (token, id). r(id \<mapsto> token)) r es i = Some t"
proof (induction es arbitrary: r)
  case Nil
  then show ?case by simp
next
  case (Cons e es)
  show ?case
  proof (cases "(t, i) \<in> set es")
    case True
    with Cons show ?thesis by simp
  next
    case False
    with Cons.prems have e: "e = (t, i)" by auto
    with Cons.prems have out: "i \<notin> snd ` set es" by (auto simp: image_iff)
    have "foldl (\<lambda>r (token, id). r(id \<mapsto> token)) r (e # es) i
        = foldl (\<lambda>r (token, id). r(id \<mapsto> token)) (r(i \<mapsto> t)) es i"
      unfolding e by (simp only: foldl_Cons prod.case)
    also have "\<dots> = (r(i \<mapsto> t)) i"
      by (rule reverse_foldl_out[OF out])
    finally show ?thesis by (simp only: fun_upd_same)
  qed
qed

lemma set_ownEntries [simp]: "set (ownEntries v) = set v"
  by (auto simp: ownEntries_def)

lemma distinct_ownEntries: "distinct (map snd v) \<Longrightarrow> distinct (map snd (ownEntries v))"
proof -
  assume "distinct (map snd v)"
  then have d: "distinct v" and i: "inj_on snd (set v)"
    by (simp_all add: distinct_map)
  have "distinct (ownEntries v)"
    using d by (auto simp: ownEntries_def)
  with i show ?thesis by (simp add: distinct_map)
qed

lemma reverseVocab_iff:
  assumes "distinct (map snd (vocab T))"
  shows "reverseVocab (buildReverseVocabFromVocab T) i = Some t \<longleftrightarrow> (t, i) \<in> set (vocab T)"
proof
  assume "(t, i) \<in> set (vocab T)"
  then show "reverseVocab (buildReverseVocabFromVocab T) i = Some t"
    using reverse_foldl_in[OF distinct_ownEntries[OF assms], of t i Map.empty]
    by (simp add: buildReverseVocabFromVocab_def)
next
  assume r: "reverseVocab (buildReverseVocabFromVocab T) i = Some t"
  have "i \<in> snd ` set (vocab T)"
  proof (rule ccontr)
    assume "i \<notin> snd ` set (vocab T)"
    then have "reverseVocab (buildReverseVocabFromVocab T) i = None"
      using reverse_foldl_out[of i "ownEntries (vocab T)" Map.empty]
      by (simp add: buildReverseVocabFromVocab_def)
    with r show False by simp
  qed
  then obtain t' where t': "(t', i) \<in> set (vocab T)" by auto
  then have "reverseVocab (buildReverseVocabFromVocab T) i = Some t'"
    using reverse_foldl_in[OF distinct_ownEntries[OF assms], of t' i Map.empty]
    by (simp add: buildReverseVocabFromVocab_def)
  with r t' show "(t, i) \<in> set (vocab T)" by simp
qed

section \<open>Set and first-seen order\<close>

lemma foldl_setAdd:
  "foldl setAdd acc xs = acc @ filter (\<lambda>x. x \<notin> set acc) (firstSeen xs)"
proof (induction xs arbitrary: acc)
  case Nil
  then show ?case by simp
next
  case (Cons x xs)
  show ?case
  proof (cases "x \<in> set acc")
    case True
    then have "filter (\<lambda>y. y \<notin> set acc) (removeAll x (firstSeen xs)) = filter (\<lambda>y. y \<notin> set acc) (firstSeen xs)"
      by (auto simp: removeAll_filter_not_eq intro!: filter_cong)
    with True Cons.IH[of acc] show ?thesis by (simp add: setAdd_def)
  next
    case False
    have "filter (\<lambda>y. y \<notin> set (acc @ [x])) (firstSeen xs) = filter (\<lambda>y. y \<notin> set acc) (removeAll x (firstSeen xs))"
      by (auto simp: removeAll_filter_not_eq intro!: filter_cong)
    with False Cons.IH[of "acc @ [x]"] show ?thesis by (simp add: setAdd_def)
  qed
qed

lemma newSet_firstSeen: "newSet xs = firstSeen xs"
  by (simp add: newSet_def foldl_setAdd)

lemma set_firstSeen [simp]: "set (firstSeen xs) = set xs"
  by (induction xs) auto

lemma distinct_firstSeen [simp]: "distinct (firstSeen xs)"
  by (induction xs) (auto simp: distinct_removeAll)

section \<open>The vocabulary after a build\<close>

lemma build_text_vocab:
  "vocab (buildVocabFromInputText lc T text) =
     (let v1 = vocab (initializeSpecialTokens T);
          added = underLimit (maxVocabSize T) (length v1)
                    (filter (\<lambda>t. \<not> propIn v1 t) (firstSeen (splitTextTokens lc T text)))
      in v1 @ zip added (map int [length v1 ..< length v1 + length added]))"
proof -
  have s: "splitTextTokens lc (initializeSpecialTokens T) = splitTextTokens lc T"
    by (rule splitTextTokens_cong) simp
  show ?thesis
    by (simp add: buildVocabFromInputText_def Let_def newSet_firstSeen addTokens_vocab s)
qed

section \<open>Counting the corpus\<close>

lemma mapSet_keys: "map fst (mapSet m k x) = setAdd (map fst m) k"
  by (induction m k x rule: mapSet.induct) (auto simp: setAdd_def)

lemma map_of_mapSet: "map_of (mapSet m k x) = (map_of m)(k \<mapsto> x)"
  by (induction m k x rule: mapSet.induct) auto

lemma countToken_keys: "map fst (countToken m t) = setAdd (map fst m) t"
  by (simp add: countToken_def mapSet_keys)

lemma foldl_countToken_keys: "map fst (foldl countToken m ts) = foldl setAdd (map fst m) ts"
  by (induction ts arbitrary: m) (simp_all add: countToken_keys)

lemma countCorpus_concat:
  "countCorpus lc T texts = foldl countToken [] (concat (map (splitTextTokens lc T) texts))"
proof -
  have "foldl (\<lambda>tokenCounts text. foldl countToken tokenCounts (splitTextTokens lc T text)) m texts
      = foldl countToken m (concat (map (splitTextTokens lc T) texts))" for m
    by (induction texts arbitrary: m) simp_all
  then show ?thesis by (simp add: countCorpus_def)
qed

lemma countCorpus_keys:
  "map fst (countCorpus lc T texts) = firstSeen (concat (map (splitTextTokens lc T) texts))"
  by (simp add: countCorpus_concat foldl_countToken_keys foldl_setAdd)

lemma distinct_sortedTokens: "distinct (map fst m) \<Longrightarrow> distinct (sortedTokens m)"
  by (simp add: sortedTokens_def distinct_map)

lemma set_sortedTokens [simp]: "set (sortedTokens m) = fst ` set m"
  by (simp add: sortedTokens_def)

lemma build_corpus_vocab:
  "vocab (buildVocabFromCorpus lc T texts) =
     (let v1 = vocab (initializeSpecialTokens T);
          added = underLimit (maxVocabSize T) (length v1)
                    (filter (\<lambda>t. \<not> propIn v1 t) (sortedTokens (countCorpus lc T texts)))
      in v1 @ zip added (map int [length v1 ..< length v1 + length added]))"
proof -
  have s: "splitTextTokens lc (initializeSpecialTokens T) = splitTextTokens lc T"
    by (rule splitTextTokens_cong) simp
  then have c: "countCorpus lc (initializeSpecialTokens T) texts = countCorpus lc T texts"
    by (simp add: countCorpus_def)
  have "distinct (sortedTokens (countCorpus lc T texts))"
    by (rule distinct_sortedTokens) (simp add: countCorpus_keys)
  then show ?thesis
    by (simp add: buildVocabFromCorpus_def Let_def addTokens_vocab c)
qed

section \<open>Sequences of builds\<close>

lemma build_fields [simp]:
  "specialTokens (buildVocabFromInputText lc T text) = specialTokens T"
  "caseSensitive (buildVocabFromInputText lc T text) = caseSensitive T"
  "maxVocabSize (buildVocabFromInputText lc T text) = maxVocabSize T"
  "specialTokens (buildVocabFromCorpus lc T texts) = specialTokens T"
  "caseSensitive (buildVocabFromCorpus lc T texts) = caseSensitive T"
  "maxVocabSize (buildVocabFromCorpus lc T texts) = maxVocabSize T"
  by (simp_all add: buildVocabFromInputText_def buildVocabFromCorpus_def Let_def)

lemma applyBuild_fields [simp]:
  "specialTokens (applyBuild lc T b) = specialTokens T"
  "caseSensitive (applyBuild lc T b) = caseSensitive T"
  "maxVocabSize (applyBuild lc T b) = maxVocabSize T"
  by (cases b; simp)+

lemma runBuilds_fields [simp]:
  "specialTokens (runBuilds lc T ops) = specialTokens T"
  "caseSensitive (runBuilds lc T ops) = caseSensitive T"
  "maxVocabSize (runBuilds lc T ops) = maxVocabSize T"
  unfolding runBuilds_def by (induction ops arbitrary: T; simp)+

lemma runBuilds_snoc: "runBuilds lc T (ops @ [b]) = applyBuild lc (runBuilds lc T ops) b"
  by (simp add: runBuilds_def)

lemma initialize_vocab_cong:
  "specialTokens T = specialTokens T' \<Longrightarrow>
   vocab (initializeSpecialTokens T) = vocab (initializeSpecialTokens T')"
  by (simp add: initializeSpecialTokens_def)

text \<open>After construction and after every build, the vocabulary is that of the constructor
  followed by the entries of the tokens a loop has added.\<close>

lemma applyBuild_vocab:
  "\<exists>cands. distinct cands \<and>
     vocab (applyBuild lc T b) =
     (let v1 = vocab (initializeSpecialTokens T);
          added = underLimit (maxVocabSize T) (length v1) (filter (\<lambda>t. \<not> propIn v1 t) cands)
      in v1 @ zip added (map int [length v1 ..< length v1 + length added]))"
proof (cases b)
  case (InputText s)
  show ?thesis
    by (rule exI[of _ "firstSeen (splitTextTokens lc T s)"])
       (simp add: InputText build_text_vocab)
next
  case (Corpus texts)
  have "distinct (sortedTokens (countCorpus lc T texts))"
    by (rule distinct_sortedTokens) (simp add: countCorpus_keys)
  then show ?thesis
    by (intro exI[of _ "sortedTokens (countCorpus lc T texts)"])
       (simp add: Corpus build_corpus_vocab)
qed

lemma CustomTokenizer_fields:
  "specialTokens (CustomTokenizer opts) =
     (case optSpecialTokens opts of
        None \<Rightarrow> [js ''<PAD>'', js ''<UNK>'', js ''<CLS>'', js ''<SEP>'']
      | Some toks \<Rightarrow> toks)"
  "caseSensitive (CustomTokenizer opts) = (case optCaseSensitive opts of None \<Rightarrow> False | Some b \<Rightarrow> b)"
  "maxVocabSize (CustomTokenizer opts) = optMaxVocabSize opts"
  by (simp_all add: CustomTokenizer_def)

lemma CustomTokenizer_vocab:
  "vocab (CustomTokenizer opts) = vocab (initializeSpecialTokens (CustomTokenizer opts))"
  by (simp add: CustomTokenizer_def initializeSpecialTokens_def)

lemma runBuilds_vocab:
  "\<exists>cands. distinct cands \<and>
     vocab (runBuilds lc (CustomTokenizer opts) ops) =
     (let v1 = vocab (CustomTokenizer opts);
          added = underLimit (optMaxVocabSize opts) (length v1) (filter (\<lambda>t. \<not> propIn v1 t) cands)
      in v1 @ zip added (map int [length v1 ..< length v1 + length added]))"
proof (cases ops rule: rev_cases)
  case Nil
  show ?thesis
    by (rule exI[of _ "[]"]) (simp add: Nil runBuilds_def)
next
  case (snoc ops' b)
  have "vocab (initializeSpecialTokens (runBuilds lc (CustomTokenizer opts) ops')) = vocab (CustomTokenizer opts)"
    using initialize_vocab_cong[of "runBuilds lc (CustomTokenizer opts) ops'" "CustomTokenizer opts"]
    by (simp add: CustomTokenizer_vocab[symmetric])
  with applyBuild_vocab[of lc "runBuilds lc (CustomTokenizer opts) ops'" b]
  show ?thesis
    by (simp add: snoc runBuilds_snoc CustomTokenizer_fields)
qed

section \<open>Where the special tokens are\<close>

lemma map_of_defineOwn: "map_of (defineOwn v k n) = (map_of v)(k \<mapsto> n)"
  by (induction v k n rule: defineOwn.induct) auto

lemma map_of_propSet_other: "k' \<noteq> k \<Longrightarrow> map_of (propSet v k n) k' = map_of v k'"
  by (simp add: propSet_def map_of_defineOwn)

lemma map_of_propSet_same: "k \<noteq> js ''__proto__'' \<Longrightarrow> map_of (propSet v k n) k = Some n"
  by (simp add: propSet_def map_of_defineOwn)

lemma specials_foldl_untouched:
  "k \<notin> set xs \<Longrightarrow>
   map_of (foldl (\<lambda>v (token, index). propSet v token (int index)) v (zip xs ns)) k = map_of v k"
proof (induction xs arbitrary: v ns)
  case Nil
  then show ?case by simp
next
  case (Cons x xs)
  then show ?case by (cases ns) (simp_all add: map_of_propSet_other)
qed

lemma specials_foldl_last:
  "i < length xs \<Longrightarrow> xs ! i \<noteq> js ''__proto__'' \<Longrightarrow> xs ! i \<notin> set (drop (Suc i) xs) \<Longrightarrow>
   map_of (foldl (\<lambda>v (token, index). propSet v token (int index)) v (zip xs [n ..< n + length xs])) (xs ! i)
   = Some (int (n + i))"
proof (induction xs arbitrary: v n i)
  case Nil
  then show ?case by simp
next
  case (Cons x xs)
  have "[n ..< n + length (x # xs)] = n # [Suc n ..< n + length (x # xs)]"
    by (rule upt_conv_Cons) simp
  then have upt: "[n ..< n + length (x # xs)] = n # [Suc n ..< Suc n + length xs]"
    by simp
  show ?case
  proof (cases i)
    case 0
    with Cons.prems show ?thesis
      unfolding upt by (simp add: specials_foldl_untouched map_of_propSet_same)
  next
    case (Suc j)
    with Cons.prems Cons.IH[of j "propSet v x (int n)" "Suc n"] show ?thesis
      unfolding upt by simp
  qed
qed

lemma initialize_last:
  "i < length (specialTokens T) \<Longrightarrow> specialTokens T ! i \<noteq> js ''__proto__'' \<Longrightarrow>
   specialTokens T ! i \<notin> set (drop (Suc i) (specialTokens T)) \<Longrightarrow>
   map_of (vocab (initializeSpecialTokens T)) (specialTokens T ! i) = Some (int i)"
  using specials_foldl_last[of i "specialTokens T" "[]" 0]
  by (simp add: initializeSpecialTokens_def)

lemma propGet_own: "map_of v k = Some n \<Longrightarrow> propGet v k = Num n"
  by (simp add: propGet_def)

lemma propGet_Num_iff: "distinct (map fst v) \<Longrightarrow> propGet v k = Num n \<longleftrightarrow> (k, n) \<in> set v"
  by (auto simp: propGet_def split: option.splits dest: map_of_SomeD eq_key_imp_eq_value)

lemma map_of_append_left: "map_of v k = Some n \<Longrightarrow> map_of (v @ w) k = Some n"
  by (simp add: map_add_Some_iff)

lemma propIn_zip_specials:
  "length ns = length xs \<Longrightarrow> propIn (zip xs ns) t \<longleftrightarrow> t \<in> set xs \<or> t \<in> set objectPrototypeKeys"
  by (simp add: propIn_def hasOwn_def)

lemma zip_specials_added:
  "zip xs (map int [0 ..< length xs]) @ zip ys (map int [length xs ..< length xs + length ys])
   = zip (xs @ ys) (map int [0 ..< length xs + length ys])"
proof -
  have "[0 ..< length xs + length ys] = [0 ..< length xs] @ [length xs ..< length xs + length ys]"
    using upt_add_eq_append[of 0 "length xs" "length ys"] by simp
  then show ?thesis by (simp add: zip_append)
qed

section \<open>The reverse vocabulary after construction and builds\<close>

lemma initialize_is_reverse:
  "\<exists>X. initializeSpecialTokens T = buildReverseVocabFromVocab X"
  unfolding initializeSpecialTokens_def by (rule exI, rule refl)

lemma applyBuild_is_reverse:
  "\<exists>X. applyBuild lc T b = buildReverseVocabFromVocab X"
proof (cases b)
  case (InputText s)
  show ?thesis
    unfolding InputText applyBuild.simps buildVocabFromInputText_def Let_def
    by (rule exI, rule refl)
next
  case (Corpus ss)
  show ?thesis
    unfolding Corpus applyBuild.simps buildVocabFromCorpus_def Let_def
    by (rule exI, rule refl)
qed

lemma runBuilds_is_reverse:
  "\<exists>X. runBuilds lc (CustomTokenizer opts) ops = buildReverseVocabFromVocab X"
proof (cases ops rule: rev_cases)
  case Nil
  show ?thesis
    unfolding Nil runBuilds_def foldl_Nil CustomTokenizer_def
    by (rule initialize_is_reverse)
next
  case (snoc ops' b)
  show ?thesis
    unfolding snoc runBuilds_snoc by (rule applyBuild_is_reverse)
qed

lemma reverse_of_reverse_iff:
  assumes "T = buildReverseVocabFromVocab X" and "distinct (map snd (vocab T))"
  shows "reverseVocab T i = Some t \<longleftrightarrow> (t, i) \<in> set (vocab T)"
proof -
  have v: "vocab T = vocab X"
    unfolding assms(1) by (rule buildReverse_fields(1))
  have "distinct (map snd (vocab X))"
    using assms(2) unfolding v .
  then have "reverseVocab (buildReverseVocabFromVocab X) i = Some t \<longleftrightarrow> (t, i) \<in> set (vocab X)"
    by (rule reverseVocab_iff)
  then show ?thesis
    unfolding v unfolding assms(1) .
qed

lemma runBuilds_reverse_iff:
  assumes "distinct (map snd (vocab (runBuilds lc (CustomTokenizer opts) ops)))"
  shows "reverseVocab (runBuilds lc (CustomTokenizer opts) ops) i = Some t
     \<longleftrightarrow> (t, i) \<in> set (vocab (runBuilds lc (CustomTokenizer opts) ops))"
proof -
  obtain X where "runBuilds lc (CustomTokenizer opts) ops = buildReverseVocabFromVocab X"
    using runBuilds_is_reverse by blast
  then show ?thesis using assms by (rule reverse_of_reverse_iff)
qed

lemma runBuilds_inverse:
  assumes "distinct (specialTokens (CustomTokenizer opts))"
    and "js ''__proto__'' \<notin> set (specialTokens (CustomTokenizer opts))"
  shows "(reverseVocab (runBuilds lc (CustomTokenizer opts) ops) i = Some t
          \<longleftrightarrow> propGet (vocab (runBuilds lc (CustomTokenizer opts) ops)) t = Num i)
       \<and> distinct (map snd (vocab (runBuilds lc (CustomTokenizer opts) ops)))"
proof -
  let ?C = "CustomTokenizer opts"
  let ?T = "runBuilds lc ?C ops"
  let ?S = "specialTokens ?C"
  have v0: "vocab ?C = zip ?S (map int [0 ..< length ?S])"
    using initialize_vocab[OF assms] by (simp add: CustomTokenizer_vocab[symmetric])
  obtain cands where d: "distinct cands" and
    v: "vocab ?T = (let v1 = vocab ?C;
          added = underLimit (optMaxVocabSize opts) (length v1) (filter (\<lambda>t. \<not> propIn v1 t) cands)
      in v1 @ zip added (map int [length v1 ..< length v1 + length added]))"
    using runBuilds_vocab[of lc opts ops] by blast
  define added where "added = underLimit (optMaxVocabSize opts) (length ?S)
     (filter (\<lambda>t. \<not> propIn (vocab ?C) t) cands)"
  have vT: "vocab ?T = zip (?S @ added) (map int [0 ..< length ?S + length added])"
    using v zip_specials_added[of ?S added] by (simp add: v0 Let_def added_def)
  have sub: "set added \<subseteq> set (filter (\<lambda>t. \<not> propIn (vocab ?C) t) cands)"
    by (auto simp: added_def underLimit_def split: option.splits dest: in_set_takeD)
  have dadd: "distinct added"
    using d by (auto simp: added_def underLimit_def split: option.splits)
  have disj: "set ?S \<inter> set added = {}"
    using sub by (auto simp: v0 propIn_zip_specials)
  have keys: "distinct (map fst (vocab ?T))"
    using assms(1) dadd disj by (simp add: vT)
  have ids: "distinct (map snd (vocab ?T))"
    by (simp add: vT distinct_map)
  have "reverseVocab ?T i = Some t \<longleftrightarrow> (t, i) \<in> set (vocab ?T)"
    using ids by (rule runBuilds_reverse_iff)
  with keys ids show ?thesis
    by (simp add: propGet_Num_iff)
qed

lemma runBuilds_special:
  shows "(i < length (specialTokens (CustomTokenizer opts))
          \<and> specialTokens (CustomTokenizer opts) ! i \<noteq> js ''__proto__''
          \<and> specialTokens (CustomTokenizer opts) ! i
               \<notin> set (drop (Suc i) (specialTokens (CustomTokenizer opts)))
          \<longrightarrow> propGet (vocab (runBuilds lc (CustomTokenizer opts) ops))
                (specialTokens (CustomTokenizer opts) ! i) = Num (int i))
       \<and> (distinct (specialTokens (CustomTokenizer opts))
          \<and> js ''__proto__'' \<notin> set (specialTokens (CustomTokenizer opts))
          \<longrightarrow> int (length (specialTokens (CustomTokenizer opts)))
                \<le> vocabSize (runBuilds lc (CustomTokenizer opts) ops))"
proof -
  let ?C = "CustomTokenizer opts"
  let ?S = "specialTokens ?C"
  obtain cands where
    v: "vocab (runBuilds lc ?C ops) = (let v1 = vocab ?C;
          added = underLimit (optMaxVocabSize opts) (length v1) (filter (\<lambda>t. \<not> propIn v1 t) cands)
      in v1 @ zip added (map int [length v1 ..< length v1 + length added]))"
    using runBuilds_vocab[of lc opts ops] by blast
  have a: "propGet (vocab (runBuilds lc ?C ops)) (?S ! i) = Num (int i)"
    if "i < length ?S" "?S ! i \<noteq> js ''__proto__''" "?S ! i \<notin> set (drop (Suc i) ?S)"
  proof -
    have "map_of (vocab ?C) (?S ! i) = Some (int i)"
      using initialize_last[OF that] by (simp add: CustomTokenizer_vocab[symmetric])
    then show ?thesis
      unfolding v Let_def by (intro propGet_own map_of_append_left)
  qed
  have b: "int (length ?S) \<le> vocabSize (runBuilds lc ?C ops)"
    if "distinct ?S" "js ''__proto__'' \<notin> set ?S"
  proof -
    have "vocab ?C = zip ?S (map int [0 ..< length ?S])"
      using initialize_vocab[OF that] by (simp add: CustomTokenizer_vocab[symmetric])
    then show ?thesis
      by (simp add: v Let_def vocabSize_def)
  qed
  from a b show ?thesis by blast
qed

section \<open>The example tokenizers, evaluated\<close>

lemma default_fields:
  "specialTokens (CustomTokenizer defaultOptions) = [js ''<PAD>'', js ''<UNK>'', js ''<CLS>'', js ''<SEP>'']"
  "caseSensitive (CustomTokenizer defaultOptions) = False"
  "maxVocabSize (CustomTokenizer defaultOptions) = None"
  by (simp_all add: CustomTokenizer_fields defaultOptions_def)

lemma default_vocab:
  "vocab (CustomTokenizer defaultOptions) =
     [(js ''<PAD>'', 0), (js ''<UNK>'', 1), (js ''<CLS>'', 2), (js ''<SEP>'', 3)]"
  by (simp add: CustomTokenizer_def defaultOptions_def initializeSpecialTokens_def propSet_def hasOwn_def)

lemma limited_fields:
  "specialTokens (CustomTokenizer limitedOptions) = [js ''<PAD>'', js ''<UNK>'', js ''<CLS>'', js ''<SEP>'']"
  "caseSensitive (CustomTokenizer limitedOptions) = True"
  "maxVocabSize (CustomTokenizer limitedOptions) = Some 6"
  by (simp_all add: CustomTokenizer_fields limitedOptions_def)

lemmas split_defs = splitTextTokens_def asciiLower_def spaceAround_def splitMarks_def
  isWhiteSpace_def trim_def trimStart_def trimEnd_def

lemma full_fields:
  "specialTokens (CustomTokenizer fullOptions) = [js ''<PAD>'', js ''<UNK>'', js ''<CLS>'', js ''<SEP>'']"
  "caseSensitive (CustomTokenizer fullOptions) = False"
  "maxVocabSize (CustomTokenizer fullOptions) = Some 4"
  by (simp_all add: CustomTokenizer_fields fullOptions_def)

lemma repeated_fields:
  "specialTokens (CustomTokenizer repeatedOptions) = [js ''a'', js ''b'', js ''a'']"
  "caseSensitive (CustomTokenizer repeatedOptions) = False"
  "maxVocabSize (CustomTokenizer repeatedOptions) = None"
  by (simp_all add: CustomTokenizer_fields repeatedOptions_def)

lemma initialize_vocab_default:
  "specialTokens T = [js ''<PAD>'', js ''<UNK>'', js ''<CLS>'', js ''<SEP>''] \<Longrightarrow>
   vocab (initializeSpecialTokens T) =
     [(js ''<PAD>'', 0), (js ''<UNK>'', 1), (js ''<CLS>'', 2), (js ''<SEP>'', 3)]"
  by (simp add: initializeSpecialTokens_def propSet_def hasOwn_def)

lemma initialize_vocab_repeated:
  "specialTokens T = [js ''a'', js ''b'', js ''a''] \<Longrightarrow>
   vocab (initializeSpecialTokens T) = [(js ''a'', 2), (js ''b'', 1)]"
  by (simp add: initializeSpecialTokens_def propSet_def hasOwn_def upt_rec)

lemma build_text_reverse:
  "reverseVocab (buildVocabFromInputText lc T s) =
   foldl (\<lambda>r (token, id). r(id \<mapsto> token)) Map.empty
     (ownEntries (vocab (buildVocabFromInputText lc T s)))"
  by (simp add: buildVocabFromInputText_def buildReverseVocabFromVocab_def Let_def)

lemma small_fields:
  "specialTokens (CustomTokenizer smallLimitOptions) = [js ''<PAD>'', js ''<UNK>'', js ''<CLS>'', js ''<SEP>'']"
  "caseSensitive (CustomTokenizer smallLimitOptions) = False"
  "maxVocabSize (CustomTokenizer smallLimitOptions) = Some 2"
  by (simp_all add: CustomTokenizer_fields smallLimitOptions_def)

lemma tokens_hello_world:
  "\<not> caseSensitive T \<Longrightarrow>
   splitTextTokens asciiLower T (js ''Hello world!'') = [js ''hello'', js ''world'', js ''!'']"
  by (simp add: split_defs)

lemma build_hello_world_vocab:
  assumes "specialTokens T = [js ''<PAD>'', js ''<UNK>'', js ''<CLS>'', js ''<SEP>'']"
    and "\<not> caseSensitive T" and "maxVocabSize T = None"
  shows "vocab (buildVocabFromInputText asciiLower T (js ''Hello world!'')) =
     [(js ''<PAD>'', 0), (js ''<UNK>'', 1), (js ''<CLS>'', 2), (js ''<SEP>'', 3),
      (js ''hello'', 4), (js ''world'', 5), (js ''!'', 6)]"
  unfolding build_text_vocab tokens_hello_world[OF assms(2)] initialize_vocab_default[OF assms(1)]
  by (simp add: assms(3) underLimit_def propIn_def hasOwn_def objectPrototypeKeys_def upt_rec)

lemma bracket_fields:
  "specialTokens (CustomTokenizer bracketOptions) = [js ''[PAD]'', js ''[UNK]'', js ''[CLS]'', js ''[SEP]'']"
  "caseSensitive (CustomTokenizer bracketOptions) = False"
  "maxVocabSize (CustomTokenizer bracketOptions) = None"
  by (simp_all add: CustomTokenizer_fields bracketOptions_def)

lemma bracket_vocab:
  "vocab (CustomTokenizer bracketOptions) =
     [(js ''[PAD]'', 0), (js ''[UNK]'', 1), (js ''[CLS]'', 2), (js ''[SEP]'', 3)]"
  by (simp add: CustomTokenizer_def bracketOptions_def initializeSpecialTokens_def propSet_def hasOwn_def)

lemma tokens_empty: "splitTextTokens asciiLower T [] = []"
  by (simp add: split_defs)

lemma startEnd_fields:
  "specialTokens (CustomTokenizer startEndOptions) = [js ''<CLS>'', js ''<SEP>'']"
  "caseSensitive (CustomTokenizer startEndOptions) = False"
  "maxVocabSize (CustomTokenizer startEndOptions) = None"
  by (simp_all add: CustomTokenizer_fields startEndOptions_def)

lemma startEnd_vocab:
  "vocab (CustomTokenizer startEndOptions) = [(js ''<CLS>'', 0), (js ''<SEP>'', 1)]"
  by (simp add: CustomTokenizer_def startEndOptions_def initializeSpecialTokens_def propSet_def hasOwn_def)

lemma tokens_hi: "\<not> caseSensitive T \<Longrightarrow> splitTextTokens asciiLower T (js ''hi'') = [js ''hi'']"
  by (simp add: split_defs)

lemma tokens_hello: "\<not> caseSensitive T \<Longrightarrow> splitTextTokens asciiLower T (js ''hello'') = [js ''hello'']"
  by (simp add: split_defs)

section \<open>What encode returns\<close>

text \<open>
  With the three literal names in the vocabulary, \<^verbatim>\<open>encode\<close> returns the id of \<^verbatim>\<open><CLS>\<close>,
  one value for each token and the id of \<^verbatim>\<open><SEP>\<close>. For the tokens that are no
  inherited names (or are own keys) the values are their ids, or the id of \<^verbatim>\<open><UNK>\<close>.
\<close>

lemma mapTokens_length:
  assumes "propGet v (js ''<UNK>'') = Num u"
  shows "\<exists>xs. mapTokens v tokens = Inr xs \<and> length xs = length tokens"
proof (induction tokens)
  case Nil
  then show ?case by simp
next
  case (Cons t ts)
  have "tokenToId v t = Inr (if propGet v t = Undefined then Num u else propGet v t)"
    using assms by (simp add: tokenToId_def)
  then obtain x where "tokenToId v t = Inr x" ..
  with Cons show ?case by auto
qed

lemma encode_shape:
  assumes "propGet (vocab T) (js ''<UNK>'') = Num u"
    and "propGet (vocab T) (js ''<CLS>'') = Num c"
    and "propGet (vocab T) (js ''<SEP>'') = Num e"
  shows "\<exists>xs. encode lc T s = Inr ([Num c] @ xs @ [Num e])
           \<and> length xs = length (splitTextTokens lc T s)"
proof -
  from mapTokens_length[OF assms(1)] obtain xs where
    "mapTokens (vocab T) (splitTextTokens lc T s) = Inr xs" "length xs = length (splitTextTokens lc T s)"
    by blast
  then show ?thesis
    using assms(2,3) by (simp add: encode_def)
qed

lemma mapTokens_own:
  assumes "propGet v (js ''<UNK>'') = Num u"
    and "set tokens \<inter> (set objectPrototypeKeys - fst ` set v) = {}"
  shows "mapTokens v tokens =
     Inr (map (\<lambda>t. case map_of v t of Some i \<Rightarrow> Num i | None \<Rightarrow> Num u) tokens)"
  using assms(2)
proof (induction tokens)
  case Nil
  then show ?case by simp
next
  case (Cons t ts)
  have "tokenToId v t = Inr (case map_of v t of Some i \<Rightarrow> Num i | None \<Rightarrow> Num u)"
  proof (cases "map_of v t")
    case None
    then have "t \<notin> fst ` set v" by (simp add: map_of_eq_None_iff)
    with Cons.prems have "t \<notin> set objectPrototypeKeys" by auto
    with None assms(1) show ?thesis by (simp add: tokenToId_def propGet_def)
  next
    case (Some i)
    then show ?thesis by (simp add: tokenToId_def propGet_def)
  qed
  with Cons show ?case by simp
qed

lemma encode_own:
  assumes "propGet (vocab T) (js ''<UNK>'') = Num u"
    and "propGet (vocab T) (js ''<CLS>'') = Num c"
    and "propGet (vocab T) (js ''<SEP>'') = Num s"
    and "set (splitTextTokens lc T text) \<inter> (set objectPrototypeKeys - fst ` set (vocab T)) = {}"
  shows "encode lc T text =
     Inr ([Num c] @ map (\<lambda>t. case map_of (vocab T) t of Some i \<Rightarrow> Num i | None \<Rightarrow> Num u)
                      (splitTextTokens lc T text) @ [Num s])"
  using assms(2,3) by (simp add: encode_def mapTokens_own[OF assms(1,4)])

text \<open>
  \<^verbatim>\<open>encode\<close> fails exactly when the vocabulary has no \<^verbatim>\<open><CLS>\<close> or no \<^verbatim>\<open><SEP>\<close>, or has
  no \<^verbatim>\<open><UNK>\<close> while a read of some token of the text gives \<^verbatim>\<open>undefined\<close>.
\<close>

lemma mapTokens_fails_iff:
  "(\<exists>e. mapTokens v tokens = Inl e) \<longleftrightarrow>
   propGet v (js ''<UNK>'') = Undefined \<and> (\<exists>t \<in> set tokens. propGet v t = Undefined)"
proof (induction tokens)
  case Nil
  then show ?case by simp
next
  case (Cons t ts)
  have t: "(\<exists>e. tokenToId v t = Inl e) \<longleftrightarrow>
           propGet v (js ''<UNK>'') = Undefined \<and> propGet v t = Undefined"
    by (auto simp: tokenToId_def Let_def)
  show ?case
  proof (cases "tokenToId v t")
    case (Inl e)
    with t show ?thesis by auto
  next
    case (Inr x)
    with t have "\<not> (propGet v (js ''<UNK>'') = Undefined \<and> propGet v t = Undefined)"
      by auto
    with Inr Cons.IH show ?thesis
      by (auto split: sum.splits)
  qed
qed

lemma encode_fails_iff:
  "(\<exists>e. encode lc T s = Inl e) \<longleftrightarrow>
   propGet (vocab T) (js ''<CLS>'') = Undefined
   \<or> propGet (vocab T) (js ''<SEP>'') = Undefined
   \<or> (propGet (vocab T) (js ''<UNK>'') = Undefined
      \<and> (\<exists>t \<in> set (splitTextTokens lc T s). propGet (vocab T) t = Undefined))"
proof (cases "mapTokens (vocab T) (splitTextTokens lc T s)")
  case (Inl e)
  then have "\<exists>e. mapTokens (vocab T) (splitTextTokens lc T s) = Inl e" ..
  then have "propGet (vocab T) (js ''<UNK>'') = Undefined
      \<and> (\<exists>t \<in> set (splitTextTokens lc T s). propGet (vocab T) t = Undefined)"
    using mapTokens_fails_iff[of "vocab T" "splitTextTokens lc T s"] by blast
  moreover have "\<exists>e. encode lc T s = Inl e"
    using Inl by (simp add: encode_def)
  ultimately show ?thesis by blast
next
  case (Inr xs)
  then have "\<not> (\<exists>e. mapTokens (vocab T) (splitTextTokens lc T s) = Inl e)"
    by simp
  then have n: "\<not> (propGet (vocab T) (js ''<UNK>'') = Undefined
      \<and> (\<exists>t \<in> set (splitTextTokens lc T s). propGet (vocab T) t = Undefined))"
    using mapTokens_fails_iff[of "vocab T" "splitTextTokens lc T s"] by blast
  have "(\<exists>e. encode lc T s = Inl e) \<longleftrightarrow>
     propGet (vocab T) (js ''<CLS>'') = Undefined \<or> propGet (vocab T) (js ''<SEP>'') = Undefined"
    using Inr by (auto simp: encode_def Let_def)
  with n show ?thesis by blast
qed

text \<open>The only error of the map over the tokens is the one for \<^verbatim>\<open><UNK>\<close>.\<close>

lemma propGet_Undefined_iff: "propGet v k = Undefined \<longleftrightarrow> \<not> propIn v k"
  by (auto simp: propGet_def propIn_def hasOwn_def map_of_eq_None_iff[symmetric] split: option.splits)

lemma mapTokens_Inl: "mapTokens v tokens = Inl e \<Longrightarrow> e = UnkNotFound"
proof (induction tokens arbitrary: e)
  case Nil
  then show ?case by simp
next
  case (Cons t ts)
  show ?case
  proof (cases "tokenToId v t")
    case (Inl e')
    then have "e' = UnkNotFound"
      by (auto simp: tokenToId_def Let_def split: if_splits)
    with Inl Cons.prems show ?thesis by simp
  next
    case (Inr x)
    with Cons show ?thesis
      by (auto split: sum.splits)
  qed
qed

lemma encode_which_error:
  "(encode lc T s = Inl UnkNotFound \<longleftrightarrow>
      propGet (vocab T) (js ''<UNK>'') = Undefined
      \<and> (\<exists>t \<in> set (splitTextTokens lc T s). propGet (vocab T) t = Undefined))
   \<and> (encode lc T s = Inl ClsSepNotFound \<longleftrightarrow>
      \<not> (propGet (vocab T) (js ''<UNK>'') = Undefined
         \<and> (\<exists>t \<in> set (splitTextTokens lc T s). propGet (vocab T) t = Undefined))
      \<and> (propGet (vocab T) (js ''<CLS>'') = Undefined
         \<or> propGet (vocab T) (js ''<SEP>'') = Undefined))"
proof -
  let ?v = "vocab T"
  let ?toks = "splitTextTokens lc T s"
  let ?U = "propGet ?v (js ''<UNK>'') = Undefined \<and> (\<exists>t \<in> set ?toks. propGet ?v t = Undefined)"
  have m: "(\<exists>e. mapTokens ?v ?toks = Inl e) \<longleftrightarrow> ?U"
    by (rule mapTokens_fails_iff)
  show ?thesis
  proof (cases "mapTokens ?v ?toks")
    case (Inl e)
    then have e: "e = UnkNotFound"
      by (rule mapTokens_Inl)
    have "?U" using m Inl by blast
    moreover have "encode lc T s = Inl UnkNotFound"
      using Inl e by (simp add: encode_def)
    ultimately show ?thesis by simp
  next
    case (Inr xs)
    then have "\<not> ?U" using m by simp
    moreover have "encode lc T s =
       (if propGet ?v (js ''<CLS>'') = Undefined \<or> propGet ?v (js ''<SEP>'') = Undefined
        then Inl ClsSepNotFound
        else Inr ([propGet ?v (js ''<CLS>'')] @ xs @ [propGet ?v (js ''<SEP>'')]))"
      using Inr by (simp add: encode_def Let_def)
    ultimately show ?thesis
      by (auto split: if_splits)
  qed
qed

section \<open>What decode returns\<close>

lemma joinSpace_Cons: "joinSpace (w # ws) = w @ (if ws = [] then [] else 32 # joinSpace ws)"
  by (cases ws) simp_all

lemma mergeTokens_words:
  "\<forall>t \<in> set toks. \<not> isPunctuation t \<Longrightarrow>
   mergeTokens acc toks = acc @ joinSpace (map tokenString toks)"
proof (induction toks arbitrary: acc)
  case Nil
  then show ?case by simp
next
  case (Cons t ts)
  then show ?case by (simp add: joinSpace_Cons Let_def)
qed

lemma decode_filter_special:
  "decode T ids = decode T (filter (\<lambda>i. reverseVocab T i \<notin> Some ` set (specialTokens T)) ids)"
proof -
  have "filter (\<lambda>token. \<not> (case token of None \<Rightarrow> False | Some s \<Rightarrow> s \<in> set (specialTokens T))) toks
      = filter (\<lambda>token. token \<notin> Some ` set (specialTokens T)) toks" for toks
    by (intro filter_cong) (auto split: option.splits)
  then show ?thesis
    by (simp add: decode_def filter_map comp_def)
qed

lemma decode_words:
  assumes "\<forall>i \<in> set ids. reverseVocab T i \<notin> Some ` set (specialTokens T)
                        \<and> \<not> isPunctuation (reverseVocab T i)"
  shows "decode T ids = trim (joinSpace (map (\<lambda>i. tokenString (reverseVocab T i)) ids))"
proof -
  have f: "filter (\<lambda>token. \<not> (case token of None \<Rightarrow> False | Some s \<Rightarrow> s \<in> set (specialTokens T)))
          (map (reverseVocab T) ids) = map (reverseVocab T) ids"
    using assms by (auto simp: filter_id_conv split: option.splits)
  have "\<forall>t \<in> set (map (reverseVocab T) ids). \<not> isPunctuation t"
    using assms by auto
  then show ?thesis
    by (simp add: decode_def f mergeTokens_words comp_def)
qed

lemma trimEnd_id: "s \<noteq> [] \<Longrightarrow> \<not> isWhiteSpace (last s) \<Longrightarrow> trimEnd s = s"
  by (cases s rule: rev_cases) (simp_all add: trimEnd_def)

lemma trimStart_id: "s \<noteq> [] \<Longrightarrow> \<not> isWhiteSpace (hd s) \<Longrightarrow> trimStart s = s"
  by (cases s) (simp_all add: trimStart_def)

lemma trim_Nil [simp]: "trim [] = []"
  by (simp add: trim_def trimStart_def trimEnd_def)

lemma trim_no_ws_ends:
  "s = [] \<or> (\<not> isWhiteSpace (hd s) \<and> \<not> isWhiteSpace (last s)) \<Longrightarrow> trim s = s"
proof (cases "s = []")
  case True
  then show ?thesis by simp
next
  case False
  assume "s = [] \<or> (\<not> isWhiteSpace (hd s) \<and> \<not> isWhiteSpace (last s))"
  with False show ?thesis
    by (simp add: trim_def trimEnd_id trimStart_id)
qed

lemma joinSpace_ends:
  "ws \<noteq> [] \<Longrightarrow> \<forall>w \<in> set ws. w \<noteq> [] \<Longrightarrow>
   hd (joinSpace ws) = hd (hd ws) \<and> last (joinSpace ws) = last (last ws) \<and> joinSpace ws \<noteq> []"
proof (induction ws rule: joinSpace.induct)
  case 1
  then show ?case by simp
next
  case (2 w)
  then show ?case by simp
next
  case (3 w v va)
  then show ?case by simp
qed

lemma decode_undefined:
  assumes "\<forall>i \<in> set ids. reverseVocab T i = None"
  shows "decode T ids = joinSpace (replicate (length ids) (js ''undefined''))"
proof -
  have p: "\<not> isPunctuation None"
    by (simp add: isPunctuation_def tokenString_def)
  have m: "map (\<lambda>i. tokenString (reverseVocab T i)) ids = replicate (length ids) (js ''undefined'')"
    using assms by (auto simp: map_replicate_const[symmetric] tokenString_def intro!: map_cong)
  have d: "decode T ids = trim (joinSpace (replicate (length ids) (js ''undefined'')))"
    using decode_words[of ids T] assms p by (simp add: m)
  show ?thesis
  proof (cases ids)
    case Nil
    then show ?thesis by (simp add: decode_def)
  next
    case (Cons i rest)
    let ?ws = "replicate (length ids) (js ''undefined'')"
    have ne: "?ws \<noteq> []" and all: "\<forall>w \<in> set ?ws. w \<noteq> []"
      using Cons by auto
    have hd: "hd ?ws = js ''undefined''" and last: "last ?ws = js ''undefined''"
      using Cons by (simp_all add: last_replicate)
    from joinSpace_ends[OF ne all]
    have "\<not> isWhiteSpace (hd (joinSpace ?ws)) \<and> \<not> isWhiteSpace (last (joinSpace ?ws))"
      unfolding hd last by (simp add: isWhiteSpace_def)
    then show ?thesis
      unfolding d by (intro trim_no_ws_ends) simp
  qed
qed

lemma build_hello_world_reverse:
  assumes "specialTokens T = [js ''<PAD>'', js ''<UNK>'', js ''<CLS>'', js ''<SEP>'']"
    and "\<not> caseSensitive T" and "maxVocabSize T = None"
  shows "reverseVocab (buildVocabFromInputText asciiLower T (js ''Hello world!'')) =
     [0 \<mapsto> js ''<PAD>'', 1 \<mapsto> js ''<UNK>'', 2 \<mapsto> js ''<CLS>'', 3 \<mapsto> js ''<SEP>'',
      4 \<mapsto> js ''hello'', 5 \<mapsto> js ''world'', 6 \<mapsto> js ''!'']"
  unfolding build_text_reverse build_hello_world_vocab[OF assms]
  by (simp add: ownEntries_def isArrayIndex_def)

section \<open>The word "undefined" in the decoded text\<close>

lemma trimEnd_keeps:
  assumes "u \<noteq> []" and "\<not> isWhiteSpace (last u)"
  shows "\<exists>post'. trimEnd (pre @ u @ post) = pre @ u @ post'"
proof -
  have r: "dropWhile isWhiteSpace (rev u @ rev pre) = rev u @ rev pre"
    using assms by (cases u rule: rev_cases) simp_all
  have "dropWhile isWhiteSpace (rev post @ rev u @ rev pre)
      = (if \<forall>x \<in> set (rev post). isWhiteSpace x then rev u @ rev pre
         else dropWhile isWhiteSpace (rev post) @ rev u @ rev pre)"
    unfolding dropWhile_append[of isWhiteSpace "rev post" "rev u @ rev pre"] r ..
  then have "trimEnd (pre @ u @ post)
      = (if \<forall>x \<in> set (rev post). isWhiteSpace x then pre @ u
         else pre @ u @ rev (dropWhile isWhiteSpace (rev post)))"
    by (simp add: trimEnd_def)
  then show ?thesis
    by (metis append_Nil2)
qed

lemma trimStart_keeps:
  assumes "u \<noteq> []" and "\<not> isWhiteSpace (hd u)"
  shows "\<exists>pre'. trimStart (pre @ u @ post) = pre' @ u @ post"
proof -
  have r: "dropWhile isWhiteSpace (u @ post) = u @ post"
    using assms by (cases u) simp_all
  have "dropWhile isWhiteSpace (pre @ u @ post)
      = (if \<forall>x \<in> set pre. isWhiteSpace x then u @ post
         else dropWhile isWhiteSpace pre @ u @ post)"
    unfolding dropWhile_append[of isWhiteSpace pre "u @ post"] r ..
  then show ?thesis
    unfolding trimStart_def by (metis append_Nil)
qed

lemma tokenString_None: "tokenString None = js ''undefined''"
  by (simp add: tokenString_def)

lemma undefined_ends:
  "tokenString None \<noteq> []" "\<not> isWhiteSpace (hd (tokenString None))"
  "\<not> isWhiteSpace (last (tokenString None))"
  by (simp_all add: tokenString_def isWhiteSpace_def)

lemma mergeTokens_Cons:
  "mergeTokens acc (t # ts) =
   mergeTokens ((if isPunctuation t then trimEnd acc else acc)
                  @ tokenString t @ (if ts \<noteq> [] then [32] else [])) ts"
  by (simp add: Let_def)

lemma mergeTokens_keeps:
  "\<exists>pre post. acc = pre @ tokenString None @ post \<Longrightarrow>
   \<exists>pre post. mergeTokens acc toks = pre @ tokenString None @ post"
proof (induction toks arbitrary: acc)
  case Nil
  then show ?case by simp
next
  case (Cons t ts)
  from Cons.prems obtain pre post where acc: "acc = pre @ tokenString None @ post"
    by blast
  from trimEnd_keeps[OF undefined_ends(1,3), of pre post] obtain post' where
    te: "trimEnd acc = pre @ tokenString None @ post'"
    unfolding acc by blast
  have "\<exists>p q. (if isPunctuation t then trimEnd acc else acc) @ x = p @ tokenString None @ q" for x
  proof (cases "isPunctuation t")
    case True
    have "trimEnd acc @ x = pre @ tokenString None @ (post' @ x)"
      unfolding te by simp
    with True show ?thesis by auto
  next
    case False
    have "acc @ x = pre @ tokenString None @ (post @ x)"
      unfolding acc by simp
    with False show ?thesis by auto
  qed
  then show ?case
    unfolding mergeTokens_Cons by (rule Cons.IH)
qed

lemma mergeTokens_undefined:
  "None \<in> set toks \<Longrightarrow> \<exists>pre post. mergeTokens acc toks = pre @ tokenString None @ post"
proof (induction toks arbitrary: acc)
  case Nil
  then show ?case by simp
next
  case (Cons t ts)
  show ?case
  proof (cases t)
    case None
    let ?a = "if isPunctuation None then trimEnd acc else acc"
    have "\<exists>p q. ?a @ tokenString None @ (if ts \<noteq> [] then [32] else []) = p @ tokenString None @ q"
      by blast
    then show ?thesis
      unfolding None mergeTokens_Cons by (rule mergeTokens_keeps)
  next
    case (Some w)
    with Cons.prems have "None \<in> set ts" by simp
    then show ?thesis
      unfolding mergeTokens_Cons by (rule Cons.IH)
  qed
qed

lemma decode_contains_undefined:
  assumes "\<exists>i \<in> set ids. reverseVocab T i = None"
  shows "\<exists>pre post. decode T ids = pre @ js ''undefined'' @ post"
proof -
  let ?f = "filter (\<lambda>token. \<not> (case token of None \<Rightarrow> False | Some s \<Rightarrow> s \<in> set (specialTokens T)))
              (map (reverseVocab T) ids)"
  from assms obtain i where "i \<in> set ids" "reverseVocab T i = None"
    by blast
  then have "None \<in> reverseVocab T ` set ids"
    by (metis imageI)
  then have "None \<in> set ?f"
    by simp
  from mergeTokens_undefined[OF this, of "[]"] obtain p q where
    m: "mergeTokens [] ?f = p @ tokenString None @ q"
    by blast
  from trimEnd_keeps[OF undefined_ends(1,3), of p q] obtain q' where
    e: "trimEnd (p @ tokenString None @ q) = p @ tokenString None @ q'"
    by blast
  from trimStart_keeps[OF undefined_ends(1,2), of p q'] obtain p' where
    "trimStart (p @ tokenString None @ q') = p' @ tokenString None @ q'"
    by blast
  then have "decode T ids = p' @ tokenString None @ q'"
    by (simp only: decode_def Let_def m trim_def e)
  then show ?thesis
    unfolding tokenString_None by blast
qed

section \<open>Serialization\<close>

lemma distinct_keys_ownEntries:
  "distinct (map fst v) \<Longrightarrow> distinct (map fst (ownEntries v))"
proof -
  assume "distinct (map fst v)"
  then have d: "distinct v" and i: "inj_on fst (set v)"
    by (simp_all add: distinct_map)
  have "distinct (ownEntries v)"
    using d by (auto simp: ownEntries_def)
  with i show ?thesis by (simp add: distinct_map)
qed

lemma ownEntries_idem: "ownEntries (ownEntries v) = ownEntries v"
proof -
  let ?P = "\<lambda>e. isArrayIndex (fst e)"
  let ?f = "\<lambda>e. digitsValue (fst e)"
  let ?A = "sort_key ?f (filter ?P v)"
  let ?B = "filter (\<lambda>e. \<not> ?P e) v"
  have A: "filter ?P ?A = ?A" "filter (\<lambda>e. \<not> ?P e) ?A = []"
    by (auto simp: filter_id_conv filter_empty_conv)
  have B: "filter ?P ?B = []" "filter (\<lambda>e. \<not> ?P e) ?B = ?B"
    by (auto simp: filter_id_conv filter_empty_conv)
  have s: "sort_key ?f ?A = ?A"
    by (rule sort_key_id_if_sorted) (rule sorted_sort_key)
  have "ownEntries (?A @ ?B) = ?A @ ?B"
    unfolding ownEntries_def[of "?A @ ?B"] filter_append A B
    by (simp only: append_Nil append_Nil2 s)
  then show ?thesis
    by (simp only: ownEntries_def[of v])
qed

lemma foldl_defineOwn_fresh:
  "distinct (map fst (acc @ es)) \<Longrightarrow>
   foldl (\<lambda>obj (k, n). defineOwn obj k n) acc es = acc @ es"
proof (induction es arbitrary: acc)
  case Nil
  then show ?case by simp
next
  case (Cons e es)
  obtain k n where e: "e = (k, n)" by (cases e)
  have "defineOwn acc k n = acc @ [(k, n)]"
    using Cons.prems by (intro defineOwn_fresh) (auto simp: e)
  moreover have "foldl (\<lambda>obj (k, n). defineOwn obj k n) (acc @ [(k, n)]) es = (acc @ [(k, n)]) @ es"
    using Cons.prems by (intro Cons.IH) (simp add: e)
  ultimately show ?case by (simp add: e)
qed

lemma spread_distinct: "distinct (map fst v) \<Longrightarrow> spread v = ownEntries v"
  using foldl_defineOwn_fresh[of "[]" "ownEntries v"]
  by (simp add: spread_def distinct_keys_ownEntries)

lemma map_of_ownEntries: "distinct (map fst v) \<Longrightarrow> map_of (ownEntries v) = map_of v"
  by (subst map_of_inject_set) (simp_all add: distinct_keys_ownEntries)

lemma propGet_ownEntries: "distinct (map fst v) \<Longrightarrow> propGet (ownEntries v) = propGet v"
  by (rule ext) (simp add: propGet_def map_of_ownEntries)

lemma addTokens_distinct_keys:
  "distinct (map fst (vocab T)) \<Longrightarrow> distinct (map fst (vocab (addTokens T ts)))"
  by (induction T ts rule: addTokens.induct) (simp_all add: propSet_distinct)

lemma applyBuild_distinct_keys: "distinct (map fst (vocab (applyBuild lc T b)))"
  by (cases b)
     (simp_all add: buildVocabFromInputText_def buildVocabFromCorpus_def Let_def
        addTokens_distinct_keys initialize_distinct)

lemma fromJSON_fields:
  "vocab (fromJSON d) = spread (jsonVocab d)"
  "specialTokens (fromJSON d) = jsonSpecialTokens d"
  "caseSensitive (fromJSON d) = jsonCaseSensitive d"
  "maxVocabSize (fromJSON d) = None"
  by (simp_all add: fromJSON_def Let_def CustomTokenizer_fields)

lemma fromJSON_is_reverse: "\<exists>X. fromJSON d = buildReverseVocabFromVocab X"
  unfolding fromJSON_def Let_def by (rule exI, rule refl)

lemma reachable_invariant:
  assumes "reachable lc T"
  shows "distinct (map fst (vocab T)) \<and> (\<exists>X. T = buildReverseVocabFromVocab X)"
  using assms
proof (induction rule: reachable.induct)
  case (constructed options)
  have "distinct (map fst (vocab (CustomTokenizer options)))"
    unfolding CustomTokenizer_vocab by (rule initialize_distinct)
  moreover have "\<exists>X. CustomTokenizer options = buildReverseVocabFromVocab X"
    unfolding CustomTokenizer_def by (rule initialize_is_reverse)
  ultimately show ?case ..
next
  case (built T b)
  show ?case
    using applyBuild_distinct_keys applyBuild_is_reverse by (rule conjI)
next
  case (loaded d)
  then have "distinct (map fst (vocab (fromJSON d)))"
    by (simp add: fromJSON_fields spread_distinct distinct_keys_ownEntries)
  then show ?case
    using fromJSON_is_reverse by (rule conjI)
qed

lemma reverse_of_vocab:
  "reverseVocab (buildReverseVocabFromVocab X) =
   foldl (\<lambda>r (token, id). r(id \<mapsto> token)) Map.empty (ownEntries (vocab X))"
  by (simp add: buildReverseVocabFromVocab_def)

section \<open>Order of the ids after a corpus build\<close>

lemma before_in_set: "before x y zs \<Longrightarrow> x \<in> set zs \<and> y \<in> set zs"
  by (induction zs) auto

lemma before_filterD: "before x y (filter P zs) \<Longrightarrow> before x y zs"
  by (induction zs) (auto split: if_splits)

lemma before_filterI: "before x y zs \<Longrightarrow> P x \<Longrightarrow> P y \<Longrightarrow> before x y (filter P zs)"
  by (induction zs) auto

lemma before_takeD: "before x y (take n zs) \<Longrightarrow> before x y zs"
proof (induction zs arbitrary: n)
  case Nil
  then show ?case by simp
next
  case (Cons z zs)
  then show ?case by (cases n) (auto dest: in_set_takeD)
qed

lemma before_underLimitD: "before x y (underLimit mx k zs) \<Longrightarrow> before x y zs"
  by (auto simp: underLimit_def split: option.splits if_splits dest: before_takeD)

lemma before_mapI: "before x y zs \<Longrightarrow> before (f x) (f y) (map f zs)"
  by (induction zs) auto

lemma before_mapD:
  "before x y (map f zs) \<Longrightarrow> \<exists>x' y'. f x' = x \<and> f y' = y \<and> before x' y' zs"
proof (induction zs)
  case Nil
  then show ?case by simp
next
  case (Cons z zs)
  from Cons.prems consider "f z = x" "y \<in> f ` set zs" | "before x y (map f zs)"
    by auto
  then show ?case
  proof cases
    case 1
    then obtain y' where "y' \<in> set zs" "f y' = y" by auto
    with 1 have "f z = x \<and> f y' = y \<and> before z y' (z # zs)" by simp
    then show ?thesis by blast
  next
    case 2
    with Cons.IH obtain x' y' where "f x' = x" "f y' = y" "before x' y' zs" by blast
    then have "f x' = x \<and> f y' = y \<and> before x' y' (z # zs)" by simp
    then show ?thesis by blast
  qed
qed

lemma before_sorted: "sorted (map f zs) \<Longrightarrow> before x y zs \<Longrightarrow> f x \<le> f y"
  by (induction zs) auto

lemma firstOccurrence_Cons:
  "firstOccurrence (x # xs) y = (if x = y then 0 else Suc (firstOccurrence xs y))"
  by (simp add: firstOccurrence_def)

lemma before_firstSeen:
  "before a b (firstSeen xs) \<Longrightarrow> a \<noteq> b \<Longrightarrow> firstOccurrence xs a < firstOccurrence xs b"
proof (induction xs)
  case Nil
  then show ?case by simp
next
  case (Cons x xs)
  from Cons.prems(1)
  have "x = a \<or> before a b (removeAll x (firstSeen xs))"
    by (simp only: firstSeen.simps before.simps) blast
  then show ?case
  proof
    assume "x = a"
    with Cons.prems(2) show ?thesis by (simp only: firstOccurrence_Cons) simp
  next
    assume 2: "before a b (removeAll x (firstSeen xs))"
    then have "before a b (filter (\<lambda>y. x \<noteq> y) (firstSeen xs))"
      by (simp only: removeAll_filter_not_eq)
    then have b: "before a b (firstSeen xs)"
      by (rule before_filterD)
    from before_in_set[OF 2] have "x \<noteq> a" "x \<noteq> b"
      by auto
    with Cons.IH[OF b Cons.prems(2)] show ?thesis
      by (simp only: firstOccurrence_Cons) simp
  qed
qed

lemma before_ids:
  "(a, i) \<in> set (zip zs (map int [n ..< n + length zs])) \<Longrightarrow>
   (b, j) \<in> set (zip zs (map int [n ..< n + length zs])) \<Longrightarrow> i < j \<Longrightarrow> before a b zs"
proof (induction zs arbitrary: n)
  case Nil
  then show ?case by simp
next
  case (Cons z zs)
  have upt: "[n ..< n + length (z # zs)] = n # [Suc n ..< Suc n + length zs]"
    using upt_conv_Cons[of n "n + length (z # zs)"] by simp
  have tail: "int (Suc n) \<le> k" if "(t, k) \<in> set (zip zs (map int [Suc n ..< Suc n + length zs]))" for t k
    using set_zip_rightD[OF that] by auto
  from Cons.prems(1) consider "a = z" "i = int n" | "(a, i) \<in> set (zip zs (map int [Suc n ..< Suc n + length zs]))"
    unfolding upt by auto
  then show ?case
  proof cases
    case 1
    with Cons.prems(2,3) have "(b, j) \<in> set (zip zs (map int [Suc n ..< Suc n + length zs]))"
      unfolding upt by auto
    then have "b \<in> set zs" by (rule set_zip_leftD)
    with 1 show ?thesis by simp
  next
    case 2
    from tail[OF 2] Cons.prems(3) have "j \<noteq> int n" by simp
    with Cons.prems(2) have "(b, j) \<in> set (zip zs (map int [Suc n ..< Suc n + length zs]))"
      unfolding upt by auto
    with 2 Cons.prems(3) Cons.IH[of "Suc n"] show ?thesis by simp
  qed
qed

lemma foldl_countToken_counts:
  "map_of (foldl countToken m toks) t =
     (if t \<in> fst ` set m \<or> t \<in> set toks
      then Some ((case map_of m t of None \<Rightarrow> 0 | Some c \<Rightarrow> c) + int (count_list toks t))
      else None)"
proof (induction toks arbitrary: m)
  case Nil
  then show ?case
    by (auto simp: map_of_eq_None_iff split: option.splits)
next
  case (Cons x toks)
  have m': "map_of (countToken m x) = (map_of m)(x \<mapsto> (case map_of m x of None \<Rightarrow> 0 | Some c \<Rightarrow> c) + 1)"
    by (simp add: countToken_def map_of_mapSet mapGet_def)
  have k: "fst ` set (countToken m x) = insert x (fst ` set m)"
  proof -
    have "set (map fst (countToken m x)) = insert x (set (map fst m))"
      unfolding countToken_keys by (auto simp: setAdd_def)
    then show ?thesis by simp
  qed
  show ?case
    by (simp add: Cons.IH[of "countToken m x"] m' k)
qed

lemma countCorpus_count:
  "(t, c) \<in> set (countCorpus lc T texts) \<Longrightarrow>
   c = int (count_list (concat (map (splitTextTokens lc T) texts)) t)"
proof -
  let ?toks = "concat (map (splitTextTokens lc T) texts)"
  assume a: "(t, c) \<in> set (countCorpus lc T texts)"
  have "distinct (map fst (countCorpus lc T texts))"
    by (simp add: countCorpus_keys)
  with a have "map_of (countCorpus lc T texts) t = Some c"
    by simp
  then show ?thesis
    by (simp add: countCorpus_concat foldl_countToken_counts split: if_splits)
qed

lemma sortedTokens_before:
  assumes "before a b (sortedTokens (countCorpus lc T texts))" and "a \<noteq> b"
  shows "count_list (concat (map (splitTextTokens lc T) texts)) b
           \<le> count_list (concat (map (splitTextTokens lc T) texts)) a
       \<and> (count_list (concat (map (splitTextTokens lc T) texts)) a
            = count_list (concat (map (splitTextTokens lc T) texts)) b
          \<longrightarrow> firstOccurrence (concat (map (splitTextTokens lc T) texts)) a
                < firstOccurrence (concat (map (splitTextTokens lc T) texts)) b)"
proof -
  let ?toks = "concat (map (splitTextTokens lc T) texts)"
  let ?m = "countCorpus lc T texts"
  let ?key = "\<lambda>e :: jsstring \<times> int. - snd e"
  let ?L = "sort_key ?key ?m"
  from assms(1) obtain ea eb where ea: "fst ea = a" and eb: "fst eb = b" and bef: "before ea eb ?L"
    unfolding sortedTokens_def by (blast dest: before_mapD)
  from before_in_set[OF bef] have "ea \<in> set ?m" "eb \<in> set ?m"
    by simp_all
  then have ca: "snd ea = int (count_list ?toks a)" and cb: "snd eb = int (count_list ?toks b)"
    using countCorpus_count[of a "snd ea" lc T texts] countCorpus_count[of b "snd eb" lc T texts] ea eb
    by auto
  have "?key ea \<le> ?key eb"
    using bef by (intro before_sorted[of ?key ?L]) (simp_all add: sorted_sort_key)
  then have le: "count_list ?toks b \<le> count_list ?toks a"
    by (simp add: ca cb)
  have "firstOccurrence ?toks a < firstOccurrence ?toks b"
    if eq: "count_list ?toks a = count_list ?toks b"
  proof -
    let ?P = "\<lambda>y. ?key y = ?key ea"
    have "?P ea" "?P eb"
      using eq by (simp_all add: ca cb)
    with bef have "before ea eb (filter ?P ?L)"
      by (intro before_filterI)
    then have "before ea eb (filter ?P ?m)"
      by (simp only: sort_key_stable)
    then have "before ea eb ?m"
      by (rule before_filterD)
    then have "before (fst ea) (fst eb) (map fst ?m)"
      by (rule before_mapI)
    then have "before a b (firstSeen ?toks)"
      by (simp only: ea eb countCorpus_keys)
    then show ?thesis
      using assms(2) by (rule before_firstSeen)
  qed
  with le show ?thesis by blast
qed

lemma corpus_ids_before:
  assumes "a \<notin> set (specialTokens T)" and "b \<notin> set (specialTokens T)"
    and "propGet (vocab (buildVocabFromCorpus lc T texts)) a = Num i"
    and "propGet (vocab (buildVocabFromCorpus lc T texts)) b = Num j"
    and "i < j"
  shows "before a b (sortedTokens (countCorpus lc T texts))"
proof -
  let ?v1 = "vocab (initializeSpecialTokens T)"
  let ?F = "filter (\<lambda>t. \<not> propIn ?v1 t) (sortedTokens (countCorpus lc T texts))"
  let ?A = "underLimit (maxVocabSize T) (length ?v1) ?F"
  let ?Z = "zip ?A (map int [length ?v1 ..< length ?v1 + length ?A])"
  have v: "vocab (buildVocabFromCorpus lc T texts) = ?v1 @ ?Z"
    by (simp add: build_corpus_vocab Let_def)
  have d: "distinct (map fst (vocab (buildVocabFromCorpus lc T texts)))"
    using applyBuild_distinct_keys[of lc T "Corpus texts"] by simp
  have "(a, i) \<in> set (?v1 @ ?Z)" "(b, j) \<in> set (?v1 @ ?Z)"
    using assms(3,4) d unfolding v by (simp_all add: propGet_Num_iff)
  moreover have "(a, i) \<notin> set ?v1" "(b, j) \<notin> set ?v1"
    using initialize_keys[of T] assms(1,2) by (auto simp: image_iff)
  ultimately have "(a, i) \<in> set ?Z" "(b, j) \<in> set ?Z"
    by simp_all
  then have "before a b ?A"
    using assms(5) by (rule before_ids)
  then have "before a b ?F"
    by (rule before_underLimitD)
  then show ?thesis
    by (rule before_filterD)
qed

lemma tokens_corpus_example:
  "\<not> caseSensitive T \<Longrightarrow>
   map (splitTextTokens asciiLower T) [js ''a b b'', js ''b c'']
     = [[js ''a'', js ''b'', js ''b''], [js ''b'', js ''c'']]"
  by (simp add: split_defs)

lemma countCorpus_example:
  "\<not> caseSensitive T \<Longrightarrow>
   countCorpus asciiLower T [js ''a b b'', js ''b c''] = [(js ''a'', 1), (js ''b'', 3), (js ''c'', 1)]"
  using tokens_corpus_example[of T]
  by (simp add: countCorpus_concat countToken_def mapGet_def)

lemma build_corpus_example:
  assumes "specialTokens T = [js ''<PAD>'', js ''<UNK>'', js ''<CLS>'', js ''<SEP>'']"
    and "\<not> caseSensitive T" and "maxVocabSize T = None"
  shows "vocab (buildVocabFromCorpus asciiLower T [js ''a b b'', js ''b c'']) =
     [(js ''<PAD>'', 0), (js ''<UNK>'', 1), (js ''<CLS>'', 2), (js ''<SEP>'', 3),
      (js ''b'', 4), (js ''a'', 5), (js ''c'', 6)]"
  unfolding build_corpus_vocab countCorpus_example[OF assms(2)] initialize_vocab_default[OF assms(1)]
  by (simp add: assms(3) sortedTokens_def underLimit_def propIn_def hasOwn_def objectPrototypeKeys_def upt_rec)

section \<open>Words, white space and the splitter\<close>

lemma collapse_word:
  "\<forall>c \<in> set w. \<not> isWhiteSpace c \<Longrightarrow> collapseWhiteSpace (w @ r) = w @ collapseWhiteSpace r"
  by (induction w) auto

lemma wordsOf_nonempty: "w \<in> set (wordsOf s) \<Longrightarrow> w \<noteq> []"
  by (induction s rule: wordsOf.induct) (auto split: if_splits)

lemma wordsOf_no_ws: "w \<in> set (wordsOf s) \<Longrightarrow> c \<in> set w \<Longrightarrow> \<not> isWhiteSpace c"
  by (induction s rule: wordsOf.induct) (auto split: if_splits dest: set_takeWhileD)

text \<open>The collapsed text is the words joined by single spaces, with at most one space
  before and one after.\<close>

lemma collapse_words:
  "\<exists>t. (t = [] \<or> (t = [32] \<and> wordsOf s \<noteq> []))
     \<and> collapseWhiteSpace s
         = (if s \<noteq> [] \<and> isWhiteSpace (hd s) then [32] else []) @ joinSpace (wordsOf s) @ t"
proof (induction s rule: wordsOf.induct)
  case 1
  then show ?case by simp
next
  case (2 c cs)
  show ?case
  proof (cases "isWhiteSpace c")
    case True
    let ?r = "dropWhile isWhiteSpace cs"
    have lead: "\<not> (?r \<noteq> [] \<and> isWhiteSpace (hd ?r))"
      using hd_dropWhile[of isWhiteSpace cs] by auto
    from 2(1)[OF True] lead obtain t where
      t: "t = [] \<or> (t = [32] \<and> wordsOf ?r \<noteq> [])"
      and c: "collapseWhiteSpace ?r = joinSpace (wordsOf ?r) @ t"
      by auto
    have "collapseWhiteSpace (c # cs) = [32] @ joinSpace (wordsOf (c # cs)) @ t"
      using True c by simp
    moreover have "t = [] \<or> (t = [32] \<and> wordsOf (c # cs) \<noteq> [])"
      using True t by simp
    ultimately show ?thesis using True by auto
  next
    case False
    let ?w = "c # takeWhile (\<lambda>x. \<not> isWhiteSpace x) cs"
    let ?r = "dropWhile (\<lambda>x. \<not> isWhiteSpace x) cs"
    have cw: "collapseWhiteSpace (c # cs) = ?w @ collapseWhiteSpace ?r"
      using collapse_word[of ?w ?r] False by (auto dest: set_takeWhileD)
    have ww: "wordsOf (c # cs) = ?w # wordsOf ?r"
      using False by simp
    from 2(2)[OF False] obtain t where
      t: "t = [] \<or> (t = [32] \<and> wordsOf ?r \<noteq> [])"
      and c: "collapseWhiteSpace ?r
          = (if ?r \<noteq> [] \<and> isWhiteSpace (hd ?r) then [32] else []) @ joinSpace (wordsOf ?r) @ t"
      by auto
    have lead: "?r \<noteq> [] \<Longrightarrow> isWhiteSpace (hd ?r)"
      using hd_dropWhile[of "\<lambda>x. \<not> isWhiteSpace x" cs] by auto
    consider "?r = []" | "?r \<noteq> []" "wordsOf ?r = []" | "?r \<noteq> []" "wordsOf ?r \<noteq> []"
      by blast
    then have "\<exists>t'. (t' = [] \<or> t' = [32]) \<and> ?w @ collapseWhiteSpace ?r = joinSpace (?w # wordsOf ?r) @ t'"
    proof cases
      case 1
      show ?thesis unfolding 1 by simp
    next
      case 2
      with t have "t = []" by simp
      with 2 lead c have "collapseWhiteSpace ?r = [32]" by simp
      then show ?thesis unfolding 2(2) by simp
    next
      case 3
      then have "joinSpace (?w # wordsOf ?r) = ?w @ 32 # joinSpace (wordsOf ?r)"
        by (cases "wordsOf ?r") simp_all
      moreover from 3 lead c have "collapseWhiteSpace ?r = 32 # joinSpace (wordsOf ?r) @ t"
        by simp
      ultimately show ?thesis using t by auto
    qed
    then show ?thesis
      unfolding cw ww using False by auto
  qed
qed

lemma trimEnd_space: "trimEnd (s @ [32]) = trimEnd s"
  by (simp add: trimEnd_def isWhiteSpace_def)

lemma trimStart_space: "trimStart (32 # s) = trimStart s"
  by (simp add: trimStart_def isWhiteSpace_def)

lemma joinSpace_words_ends:
  assumes "ws \<noteq> []" and "\<forall>w \<in> set ws. w \<noteq> [] \<and> (\<forall>c \<in> set w. \<not> isWhiteSpace c)"
  shows "joinSpace ws \<noteq> [] \<and> \<not> isWhiteSpace (hd (joinSpace ws)) \<and> \<not> isWhiteSpace (last (joinSpace ws))"
proof -
  have ne: "\<forall>w \<in> set ws. w \<noteq> []" using assms(2) by blast
  from joinSpace_ends[OF assms(1) ne]
  have e: "hd (joinSpace ws) = hd (hd ws)" "last (joinSpace ws) = last (last ws)" "joinSpace ws \<noteq> []"
    by simp_all
  have "hd ws \<in> set ws" "last ws \<in> set ws"
    using assms(1) by simp_all
  with assms(2) have "hd (hd ws) \<in> set (hd ws)" "last (last ws) \<in> set (last ws)"
    "\<forall>c \<in> set (hd ws). \<not> isWhiteSpace c" "\<forall>c \<in> set (last ws). \<not> isWhiteSpace c"
    by simp_all
  then have "\<not> isWhiteSpace (hd (hd ws))" "\<not> isWhiteSpace (last (last ws))"
    by blast+
  with e show ?thesis by simp
qed

lemma trim_collapse_words: "trim (collapseWhiteSpace s) = joinSpace (wordsOf s)"
proof -
  let ?J = "joinSpace (wordsOf s)"
  define l :: jsstring where "l = (if s \<noteq> [] \<and> isWhiteSpace (hd s) then [32] else [])"
  have l: "l = [] \<or> l = [32]"
    by (simp add: l_def)
  from collapse_words[of s] obtain t where
    t: "t = [] \<or> (t = [32] \<and> wordsOf s \<noteq> [])"
    and c: "collapseWhiteSpace s = l @ ?J @ t"
    unfolding l_def by blast
  show ?thesis
  proof (cases "wordsOf s = []")
    case True
    with t have "t = []" by simp
    with True l show ?thesis
      unfolding c by (auto simp: trim_def trimEnd_def trimStart_def isWhiteSpace_def)
  next
    case False
    have "\<forall>w \<in> set (wordsOf s). w \<noteq> [] \<and> (\<forall>c \<in> set w. \<not> isWhiteSpace c)"
      using wordsOf_nonempty wordsOf_no_ws by blast
    from joinSpace_words_ends[OF False this]
    have J: "?J \<noteq> []" "\<not> isWhiteSpace (hd ?J)" "\<not> isWhiteSpace (last ?J)"
      by simp_all
    have "trimEnd (l @ ?J @ t) = trimEnd (l @ ?J)"
      using t trimEnd_space[of "l @ ?J"] by auto
    also have "\<dots> = l @ ?J"
      using J by (intro trimEnd_id) simp_all
    finally have "trim (l @ ?J @ t) = trimStart (l @ ?J)"
      by (simp add: trim_def)
    also have "\<dots> = trimStart ?J"
      using l trimStart_space[of ?J] by auto
    also have "\<dots> = ?J"
      using J by (intro trimStart_id)
    finally show ?thesis unfolding c .
  qed
qed

lemma splitOn_no_sep: "sep \<notin> set w \<Longrightarrow> splitOn sep w = [w]"
  by (induction w) (auto simp: Let_def)

lemma splitOn_word: "sep \<notin> set w \<Longrightarrow> splitOn sep (w @ sep # r) = w # splitOn sep r"
  by (induction w) (auto simp: Let_def)

lemma splitOn_joinSpace:
  "ws \<noteq> [] \<Longrightarrow> \<forall>w \<in> set ws. 32 \<notin> set w \<Longrightarrow> splitOn 32 (joinSpace ws) = ws"
proof (induction ws rule: joinSpace.induct)
  case 1
  then show ?case by simp
next
  case (2 w)
  then show ?case by (simp add: splitOn_no_sep)
next
  case (3 w v va)
  then show ?case by (simp add: splitOn_word)
qed

lemma space_is_ws: "isWhiteSpace 32"
  by (simp add: isWhiteSpace_def)

lemma tokens_of_words: "filter (\<lambda>token. length token > 0) (splitOn 32 (joinSpace (wordsOf s))) = wordsOf s"
proof (cases "wordsOf s = []")
  case True
  then show ?thesis by simp
next
  case False
  have "\<forall>w \<in> set (wordsOf s). 32 \<notin> set w"
    using wordsOf_no_ws space_is_ws by blast
  with False have "splitOn 32 (joinSpace (wordsOf s)) = wordsOf s"
    by (rule splitOn_joinSpace)
  moreover have "\<forall>w \<in> set (wordsOf s). length w > 0"
    using wordsOf_nonempty by auto
  ultimately show ?thesis by (simp add: filter_id_conv)
qed

section \<open>Joining the tokens\<close>

text \<open>
  When no token is empty or ends in white space, \<^verbatim>\<open>trimEnd\<close> before a punctuation mark
  takes away the one space that followed the token before, and the loop of \<^verbatim>\<open>decode\<close>
  writes the tokens as \<open>joinTokens\<close> does.
\<close>

lemma trimEnd_Nil [simp]: "trimEnd [] = []"
  by (simp add: trimEnd_def)

lemma mergeTokens_after_space:
  assumes "r \<noteq> []" and "\<not> isWhiteSpace (last r)" and "toks \<noteq> []"
    and "\<forall>t \<in> set toks. tokenString t \<noteq> [] \<and> \<not> isWhiteSpace (last (tokenString t))"
  shows "mergeTokens (r @ [32]) toks
       = r @ concat (map (\<lambda>u. (if isPunctuation u then [] else [32]) @ tokenString u) toks)"
  using assms
proof (induction toks arbitrary: r)
  case Nil
  then show ?case by simp
next
  case (Cons t ts)
  let ?piece = "\<lambda>u. (if isPunctuation u then [] else [32]) @ tokenString u"
  have te: "trimEnd (r @ [32]) = r"
    using Cons.prems(1,2) by (simp add: trimEnd_space trimEnd_id)
  have acc: "(if isPunctuation t then trimEnd (r @ [32]) else r @ [32]) @ tokenString t = r @ ?piece t"
    by (simp add: te)
  show ?case
  proof (cases "ts = []")
    case True
    then show ?thesis
      unfolding mergeTokens_Cons by (simp add: te)
  next
    case False
    have ne: "r @ ?piece t \<noteq> []" using Cons.prems(1) by simp
    have t: "tokenString t \<noteq> []" "\<not> isWhiteSpace (last (tokenString t))"
      using Cons.prems(4) by simp_all
    have la: "\<not> isWhiteSpace (last (r @ ?piece t))"
      using t by simp
    have rest: "\<forall>t \<in> set ts. tokenString t \<noteq> [] \<and> \<not> isWhiteSpace (last (tokenString t))"
      using Cons.prems(4) by simp
    have "mergeTokens (r @ [32]) (t # ts) = mergeTokens ((r @ ?piece t) @ [32]) ts"
      unfolding mergeTokens_Cons using False by (simp add: te)
    also have "\<dots> = (r @ ?piece t) @ concat (map ?piece ts)"
      using ne la False rest by (rule Cons.IH)
    finally show ?thesis by simp
  qed
qed

lemma mergeTokens_joinTokens:
  assumes "\<forall>t \<in> set toks. tokenString t \<noteq> [] \<and> \<not> isWhiteSpace (last (tokenString t))"
  shows "mergeTokens [] toks = joinTokens toks"
proof (cases toks)
  case Nil
  then show ?thesis by (simp add: joinTokens_def)
next
  case (Cons t ts)
  have t: "tokenString t \<noteq> []" "\<not> isWhiteSpace (last (tokenString t))"
    and rest: "\<forall>t \<in> set ts. tokenString t \<noteq> [] \<and> \<not> isWhiteSpace (last (tokenString t))"
    using assms unfolding Cons by simp_all
  show ?thesis
  proof (cases "ts = []")
    case True
    then show ?thesis
      unfolding Cons mergeTokens_Cons by (simp add: joinTokens_def)
  next
    case False
    have "mergeTokens [] (t # ts) = mergeTokens (tokenString t @ [32]) ts"
      unfolding mergeTokens_Cons using False by simp
    also have "\<dots> = tokenString t @ concat (map (\<lambda>u. (if isPunctuation u then [] else [32]) @ tokenString u) ts)"
      using t False rest by (rule mergeTokens_after_space)
    finally show ?thesis
      unfolding Cons by (simp add: joinTokens_def)
  qed
qed

lemma joinTokens_ends:
  assumes "toks \<noteq> []"
    and "\<forall>t \<in> set toks. tokenString t \<noteq> []"
  shows "joinTokens toks \<noteq> []"
    and "hd (joinTokens toks) = hd (tokenString (hd toks))"
    and "last (joinTokens toks) = last (tokenString (last toks))"
proof -
  obtain t ts where c: "toks = t # ts"
    using assms(1) by (cases toks) auto
  let ?piece = "\<lambda>u. (if isPunctuation u then [] else [32]) @ tokenString u"
  have t: "tokenString t \<noteq> []" using assms(2) c by simp
  show "joinTokens toks \<noteq> []"
    using t by (simp add: c joinTokens_def)
  show "hd (joinTokens toks) = hd (tokenString (hd toks))"
    using t by (simp add: c joinTokens_def)
  have "last (x @ concat (map ?piece us)) = last (tokenString (last (u0 # us)))"
    if "x \<noteq> []" "last x = last (tokenString u0)" "\<forall>u \<in> set us. tokenString u \<noteq> []" for x u0 us
    using that
  proof (induction us arbitrary: x u0)
    case Nil
    then show ?case by simp
  next
    case (Cons u us)
    have "last ((x @ ?piece u) @ concat (map ?piece us)) = last (tokenString (last (u # us)))"
      using Cons.prems by (intro Cons.IH) simp_all
    then show ?case by simp
  qed
  from this[of "tokenString t" t ts] t assms(2)
  show "last (joinTokens toks) = last (tokenString (last toks))"
    by (simp add: c joinTokens_def)
qed

lemma trim_joinTokens:
  assumes "\<forall>t \<in> set toks. tokenString t \<noteq> [] \<and> \<not> isWhiteSpace (hd (tokenString t))
                          \<and> \<not> isWhiteSpace (last (tokenString t))"
  shows "trim (joinTokens toks) = joinTokens toks"
proof (cases "toks = []")
  case True
  then show ?thesis by (simp add: joinTokens_def)
next
  case False
  have ne: "\<forall>t \<in> set toks. tokenString t \<noteq> []" using assms by blast
  have "hd toks \<in> set toks" "last toks \<in> set toks"
    using False by simp_all
  with assms have "\<not> isWhiteSpace (hd (tokenString (hd toks)))"
    "\<not> isWhiteSpace (last (tokenString (last toks)))"
    by blast+
  then show ?thesis
    using joinTokens_ends[OF False ne] by (intro trim_no_ws_ends) simp
qed

text \<open>The characters of the result that are no white space are those of the tokens.\<close>

lemma filter_dropWhile_not:
  "filter (\<lambda>c. \<not> P c) (dropWhile P xs) = filter (\<lambda>c. \<not> P c) xs"
  by (induction xs) auto

lemma trimEnd_visible:
  "filter (\<lambda>c. \<not> isWhiteSpace c) (trimEnd s) = filter (\<lambda>c. \<not> isWhiteSpace c) s"
proof -
  have "filter (\<lambda>c. \<not> isWhiteSpace c) (trimEnd s)
      = rev (filter (\<lambda>c. \<not> isWhiteSpace c) (dropWhile isWhiteSpace (rev s)))"
    by (simp add: trimEnd_def rev_filter)
  also have "\<dots> = rev (filter (\<lambda>c. \<not> isWhiteSpace c) (rev s))"
    by (simp only: filter_dropWhile_not)
  finally show ?thesis by (simp add: rev_filter)
qed

lemma trim_visible:
  "filter (\<lambda>c. \<not> isWhiteSpace c) (trim s) = filter (\<lambda>c. \<not> isWhiteSpace c) s"
  by (simp add: trim_def trimStart_def filter_dropWhile_not trimEnd_visible)

lemma mergeTokens_visible:
  "filter (\<lambda>c. \<not> isWhiteSpace c) (mergeTokens acc toks)
   = filter (\<lambda>c. \<not> isWhiteSpace c) acc
     @ concat (map (\<lambda>t. filter (\<lambda>c. \<not> isWhiteSpace c) (tokenString t)) toks)"
proof (induction toks arbitrary: acc)
  case Nil
  then show ?case by simp
next
  case (Cons t ts)
  show ?case
    unfolding mergeTokens_Cons Cons.IH
    by (simp add: trimEnd_visible space_is_ws)
qed

lemma decode_visible:
  "filter (\<lambda>c. \<not> isWhiteSpace c) (decode T ids)
   = concat (map (\<lambda>i. filter (\<lambda>c. \<not> isWhiteSpace c) (tokenString (reverseVocab T i)))
       (filter (\<lambda>i. reverseVocab T i \<notin> Some ` set (specialTokens T)) ids))"
proof -
  have f: "filter (\<lambda>token. \<not> (case token of None \<Rightarrow> False | Some s \<Rightarrow> s \<in> set (specialTokens T))) toks
      = filter (\<lambda>token. token \<notin> Some ` set (specialTokens T)) toks" for toks
    by (intro filter_cong) (auto split: option.splits)
  show ?thesis
    by (simp add: decode_def trim_visible mergeTokens_visible f filter_map comp_def)
qed

lemma decode_joinTokens:
  assumes "\<forall>i \<in> set ids. reverseVocab T i \<notin> Some ` set (specialTokens T) \<longrightarrow>
             tokenString (reverseVocab T i) \<noteq> []
             \<and> \<not> isWhiteSpace (last (tokenString (reverseVocab T i)))"
  shows "decode T ids
       = trim (joinTokens (map (reverseVocab T)
                 (filter (\<lambda>i. reverseVocab T i \<notin> Some ` set (specialTokens T)) ids)))"
proof -
  let ?kept = "filter (\<lambda>i. reverseVocab T i \<notin> Some ` set (specialTokens T)) ids"
  have f: "filter (\<lambda>token. \<not> (case token of None \<Rightarrow> False | Some s \<Rightarrow> s \<in> set (specialTokens T))) toks
      = filter (\<lambda>token. token \<notin> Some ` set (specialTokens T)) toks" for toks
    by (intro filter_cong) (auto split: option.splits)
  have d: "decode T ids = trim (mergeTokens [] (map (reverseVocab T) ?kept))"
    by (simp add: decode_def f filter_map comp_def)
  have "\<forall>t \<in> set (map (reverseVocab T) ?kept).
          tokenString t \<noteq> [] \<and> \<not> isWhiteSpace (last (tokenString t))"
    using assms by auto
  then show ?thesis
    unfolding d by (simp only: mergeTokens_joinTokens)
qed

section \<open>The tokens of the splitter\<close>

text \<open>
  The tokens are the words of the text in which the marks are set apart; none of them
  is empty or has white space.
\<close>

lemma splitTextTokens_wordsOf:
  "splitTextTokens lc T s =
     wordsOf (spaceAround (js '','') (spaceAround splitMarks (if caseSensitive T then s else lc s)))"
  unfolding splitTextTokens_def Let_def trim_collapse_words by (rule tokens_of_words)

lemma splitTextTokens_clean:
  assumes "t \<in> set (splitTextTokens lc T s)"
  shows "t \<noteq> []" and "\<forall>c \<in> set t. \<not> isWhiteSpace c"
  using assms wordsOf_nonempty wordsOf_no_ws unfolding splitTextTokens_wordsOf by blast+

section \<open>The keys of a vocabulary that was built\<close>

lemma underLimit_subset: "set (underLimit mx k xs) \<subseteq> set xs"
  by (auto simp: underLimit_def split: option.splits dest: in_set_takeD)

lemma added_keys:
  "fst ` set (zip (underLimit mx k (filter P cands)) ns) \<subseteq> set cands"
proof -
  have "fst ` set (zip (underLimit mx k (filter P cands)) ns) \<subseteq> set (underLimit mx k (filter P cands))"
    by (auto dest: set_zip_leftD)
  also have "\<dots> \<subseteq> set (filter P cands)"
    by (rule underLimit_subset)
  finally show ?thesis by auto
qed

lemma applyBuild_keys:
  assumes "k \<in> fst ` set (vocab (applyBuild lc T b))"
  shows "k \<in> set (specialTokens T) \<or> (\<exists>s. k \<in> set (splitTextTokens lc T s))"
proof (cases b)
  case (InputText s)
  let ?v1 = "vocab (initializeSpecialTokens T)"
  from assms have "k \<in> fst ` set ?v1 \<or> k \<in> set (firstSeen (splitTextTokens lc T s))"
    unfolding InputText applyBuild.simps build_text_vocab Let_def
    using added_keys[of "maxVocabSize T" "length ?v1" "\<lambda>t. \<not> propIn ?v1 t"
        "firstSeen (splitTextTokens lc T s)"]
    by (auto simp only: set_append image_Un)
  then show ?thesis
    using initialize_keys[of T] by auto
next
  case (Corpus texts)
  let ?v1 = "vocab (initializeSpecialTokens T)"
  from assms have "k \<in> fst ` set ?v1 \<or> k \<in> set (sortedTokens (countCorpus lc T texts))"
    unfolding Corpus applyBuild.simps build_corpus_vocab Let_def
    using added_keys[of "maxVocabSize T" "length ?v1" "\<lambda>t. \<not> propIn ?v1 t"
        "sortedTokens (countCorpus lc T texts)"]
    by (auto simp only: set_append image_Un)
  moreover have "set (sortedTokens (countCorpus lc T texts))
      = set (concat (map (splitTextTokens lc T) texts))"
    using countCorpus_keys[of lc T texts] set_firstSeen[of "concat (map (splitTextTokens lc T) texts)"]
    by (metis set_map set_sortedTokens)
  ultimately show ?thesis
    using initialize_keys[of T] by auto
qed

lemma runBuilds_keys:
  assumes "k \<in> fst ` set (vocab (runBuilds lc (CustomTokenizer opts) ops))"
  shows "k \<in> set (specialTokens (CustomTokenizer opts))
       \<or> (k \<noteq> [] \<and> (\<forall>c \<in> set k. \<not> isWhiteSpace c))"
proof (cases ops rule: rev_cases)
  case Nil
  with assms have "k \<in> fst ` set (vocab (initializeSpecialTokens (CustomTokenizer opts)))"
    by (simp add: runBuilds_def CustomTokenizer_vocab[symmetric])
  then show ?thesis
    using initialize_keys[of "CustomTokenizer opts"] by auto
next
  case (snoc ops' b)
  let ?T = "runBuilds lc (CustomTokenizer opts) ops'"
  from assms have "k \<in> fst ` set (vocab (applyBuild lc ?T b))"
    by (simp only: snoc runBuilds_snoc)
  from applyBuild_keys[OF this]
  consider "k \<in> set (specialTokens ?T)" | s where "k \<in> set (splitTextTokens lc ?T s)"
    by blast
  then show ?thesis
  proof cases
    case 1
    then show ?thesis by simp
  next
    case 2
    then show ?thesis
      using splitTextTokens_clean[of k lc ?T s] by blast
  qed
qed

lemma reverse_foldl_values:
  "foldl (\<lambda>r (token, id). r(id \<mapsto> token)) r es i = Some t \<Longrightarrow> r i = Some t \<or> t \<in> fst ` set es"
proof (induction es arbitrary: r)
  case Nil
  then show ?case by simp
next
  case (Cons e es)
  obtain k n where e: "e = (k, n)" by (cases e)
  from Cons.prems have "foldl (\<lambda>r (token, id). r(id \<mapsto> token)) (r(n \<mapsto> k)) es i = Some t"
    unfolding e by (simp only: foldl_Cons prod.case)
  from Cons.IH[OF this] show ?case
    unfolding e by (auto split: if_splits)
qed

lemma runBuilds_reverse_values:
  assumes "reverseVocab (runBuilds lc (CustomTokenizer opts) ops) i = Some t"
  shows "t \<in> fst ` set (vocab (runBuilds lc (CustomTokenizer opts) ops))"
proof -
  obtain X where X: "runBuilds lc (CustomTokenizer opts) ops = buildReverseVocabFromVocab X"
    using runBuilds_is_reverse by blast
  have "reverseVocab (buildReverseVocabFromVocab X) i = Some t"
    using assms unfolding X .
  then have "foldl (\<lambda>r (token, id). r(id \<mapsto> token)) Map.empty (ownEntries (vocab X)) i = Some t"
    by (simp add: buildReverseVocabFromVocab_def)
  from reverse_foldl_values[OF this] have "t \<in> fst ` set (vocab X)"
    by simp
  then show ?thesis
    unfolding X by simp
qed

text \<open>
  After construction and builds, a token of the reverse vocabulary that is no special
  token came from the splitter: it is not empty and has no white space.
\<close>

lemma runBuilds_tokens_clean:
  assumes "reverseVocab (runBuilds lc (CustomTokenizer opts) ops) i
             \<notin> Some ` set (specialTokens (runBuilds lc (CustomTokenizer opts) ops))"
  shows "tokenString (reverseVocab (runBuilds lc (CustomTokenizer opts) ops) i) \<noteq> []"
    and "\<forall>c \<in> set (tokenString (reverseVocab (runBuilds lc (CustomTokenizer opts) ops) i)).
           \<not> isWhiteSpace c"
proof -
  let ?T = "runBuilds lc (CustomTokenizer opts) ops"
  have "tokenString (reverseVocab ?T i) \<noteq> []
      \<and> (\<forall>c \<in> set (tokenString (reverseVocab ?T i)). \<not> isWhiteSpace c)"
  proof (cases "reverseVocab ?T i")
    case None
    show ?thesis
      unfolding None by (simp add: tokenString_def isWhiteSpace_def)
  next
    case (Some t)
    with assms have "t \<notin> set (specialTokens (CustomTokenizer opts))"
      by auto
    moreover have "t \<in> fst ` set (vocab ?T)"
      using Some by (rule runBuilds_reverse_values)
    ultimately have "t \<noteq> [] \<and> (\<forall>c \<in> set t. \<not> isWhiteSpace c)"
      using runBuilds_keys[of t lc opts ops] by blast
    then show ?thesis
      unfolding Some by (simp add: tokenString_def)
  qed
  then show "tokenString (reverseVocab ?T i) \<noteq> []"
    and "\<forall>c \<in> set (tokenString (reverseVocab ?T i)). \<not> isWhiteSpace c"
    by blast+
qed

lemma runBuilds_decode:
  "decode (runBuilds lc (CustomTokenizer opts) ops) ids
   = joinTokens (map (reverseVocab (runBuilds lc (CustomTokenizer opts) ops))
       (filter (\<lambda>i. reverseVocab (runBuilds lc (CustomTokenizer opts) ops) i
                      \<notin> Some ` set (specialTokens (runBuilds lc (CustomTokenizer opts) ops))) ids))"
proof -
  let ?T = "runBuilds lc (CustomTokenizer opts) ops"
  let ?kept = "filter (\<lambda>i. reverseVocab ?T i \<notin> Some ` set (specialTokens ?T)) ids"
  have clean: "tokenString (reverseVocab ?T i) \<noteq> []
       \<and> \<not> isWhiteSpace (hd (tokenString (reverseVocab ?T i)))
       \<and> \<not> isWhiteSpace (last (tokenString (reverseVocab ?T i)))"
    if "reverseVocab ?T i \<notin> Some ` set (specialTokens ?T)" for i
  proof -
    from runBuilds_tokens_clean[OF that]
    have ne: "tokenString (reverseVocab ?T i) \<noteq> []"
      and nw: "\<forall>c \<in> set (tokenString (reverseVocab ?T i)). \<not> isWhiteSpace c"
      by blast+
    from ne have "hd (tokenString (reverseVocab ?T i)) \<in> set (tokenString (reverseVocab ?T i))"
      "last (tokenString (reverseVocab ?T i)) \<in> set (tokenString (reverseVocab ?T i))"
      by simp_all
    with ne nw show ?thesis by blast
  qed
  have "decode ?T ids = trim (joinTokens (map (reverseVocab ?T) ?kept))"
    using clean by (intro decode_joinTokens) blast
  also have "\<dots> = joinTokens (map (reverseVocab ?T) ?kept)"
    using clean by (intro trim_joinTokens) auto
  finally show ?thesis .
qed

section \<open>The words of a text and the tokens of its words\<close>

lemma wordsOf_dropWhile: "wordsOf (dropWhile isWhiteSpace s) = wordsOf s"
  by (cases s) simp_all

lemma wordsOf_white: "\<forall>c \<in> set u. isWhiteSpace c \<Longrightarrow> wordsOf (u @ s) = wordsOf s"
proof (induction u)
  case Nil
  then show ?case by simp
next
  case (Cons c u)
  then have "wordsOf ((c # u) @ s) = wordsOf (dropWhile isWhiteSpace (u @ s))"
    by simp
  also have "\<dots> = wordsOf (u @ s)"
    by (rule wordsOf_dropWhile)
  finally show ?case using Cons by simp
qed

lemma wordsOf_append:
  "b = [] \<or> isWhiteSpace (hd b) \<Longrightarrow> wordsOf (a @ b) = wordsOf a @ wordsOf b"
proof (induction a rule: wordsOf.induct)
  case 1
  then show ?case by simp
next
  case (2 c cs)
  show ?case
  proof (cases "isWhiteSpace c")
    case True
    show ?thesis
    proof (cases "\<forall>x \<in> set cs. isWhiteSpace x")
      case all: True
      then have "\<forall>x \<in> set (c # cs). isWhiteSpace x"
        using True by simp
      then have "wordsOf ((c # cs) @ b) = wordsOf b" "wordsOf ((c # cs) @ []) = wordsOf []"
        by (rule wordsOf_white)+
      then show ?thesis by simp
    next
      case False
      then have d: "dropWhile isWhiteSpace (cs @ b) = dropWhile isWhiteSpace cs @ b"
        by (auto simp: dropWhile_append)
      have "wordsOf (dropWhile isWhiteSpace cs @ b) = wordsOf (dropWhile isWhiteSpace cs) @ wordsOf b"
        using True 2(3) by (rule 2(1))
      then show ?thesis
        using True by (simp add: d)
    qed
  next
    case False
    have tb: "takeWhile (\<lambda>x. \<not> isWhiteSpace x) b = []" and db: "dropWhile (\<lambda>x. \<not> isWhiteSpace x) b = b"
      using 2(3) by (cases b; auto)+
    show ?thesis
    proof (cases "\<forall>x \<in> set cs. \<not> isWhiteSpace x")
      case True
      then have tw: "takeWhile (\<lambda>x. \<not> isWhiteSpace x) (cs @ b) = cs"
        and dw: "dropWhile (\<lambda>x. \<not> isWhiteSpace x) (cs @ b) = b"
        and tw2: "takeWhile (\<lambda>x. \<not> isWhiteSpace x) cs = cs"
        and dw2: "dropWhile (\<lambda>x. \<not> isWhiteSpace x) cs = []"
        by (auto simp: takeWhile_append dropWhile_append tb db takeWhile_eq_all_conv dropWhile_eq_Nil_conv)
      have "wordsOf ((c # cs) @ b) = (c # cs) # wordsOf b"
        using False by (simp add: tw dw)
      moreover have "wordsOf (c # cs) = [c # cs]"
        using False by (simp add: tw2 dw2)
      ultimately show ?thesis by simp
    next
      case nall: False
      then have t: "takeWhile (\<lambda>x. \<not> isWhiteSpace x) (cs @ b) = takeWhile (\<lambda>x. \<not> isWhiteSpace x) cs"
        and d: "dropWhile (\<lambda>x. \<not> isWhiteSpace x) (cs @ b) = dropWhile (\<lambda>x. \<not> isWhiteSpace x) cs @ b"
        by (auto simp: takeWhile_append dropWhile_append)
      have "wordsOf (dropWhile (\<lambda>x. \<not> isWhiteSpace x) cs @ b)
          = wordsOf (dropWhile (\<lambda>x. \<not> isWhiteSpace x) cs) @ wordsOf b"
        using False 2(3) by (rule 2(2))
      then show ?thesis
        using False by (simp add: t d)
    qed
  qed
qed


lemma spaceAround_append: "spaceAround cls (a @ b) = spaceAround cls a @ spaceAround cls b"
  by (simp add: spaceAround_def)


lemma spaceAround_white: "\<forall>c \<in> set u. isWhiteSpace c \<Longrightarrow> \<forall>c \<in> set (spaceAround cls u). isWhiteSpace c"
  by (induction u) (simp_all add: spaceAround_def space_is_ws)

lemma spaceAround_hd:
  "s = [] \<or> isWhiteSpace (hd s) \<Longrightarrow> spaceAround cls s = [] \<or> isWhiteSpace (hd (spaceAround cls s))"
  by (cases s) (simp_all add: spaceAround_def space_is_ws)

text \<open>The tokens of a text are the tokens of its words, one word after the other.\<close>

lemma tokens_by_words:
  "wordsOf (spaceAround c2 (spaceAround c1 s))
   = concat (map (\<lambda>w. wordsOf (spaceAround c2 (spaceAround c1 w))) (wordsOf s))"
proof (induction s rule: wordsOf.induct)
  case 1
  then show ?case by (simp add: spaceAround_def)
next
  case (2 c cs)
  let ?X = "\<lambda>s. spaceAround c2 (spaceAround c1 s)"
  have app: "?X (a @ b) = ?X a @ ?X b" for a b
    by (simp add: spaceAround_append)
  show ?case
  proof (cases "isWhiteSpace c")
    case True
    let ?u = "c # takeWhile isWhiteSpace cs"
    have s: "c # cs = ?u @ dropWhile isWhiteSpace cs"
      by simp
    have "\<forall>x \<in> set ?u. isWhiteSpace x"
      using True by (auto dest: set_takeWhileD)
    then have "\<forall>x \<in> set (?X ?u). isWhiteSpace x"
      by (intro spaceAround_white)
    then have "wordsOf (?X ?u @ ?X (dropWhile isWhiteSpace cs)) = wordsOf (?X (dropWhile isWhiteSpace cs))"
      by (rule wordsOf_white)
    then have "wordsOf (?X (c # cs)) = wordsOf (?X (dropWhile isWhiteSpace cs))"
      unfolding app[symmetric] s[symmetric] .
    with 2(1)[OF True] True show ?thesis
      by simp
  next
    case False
    let ?w = "c # takeWhile (\<lambda>x. \<not> isWhiteSpace x) cs"
    let ?r = "dropWhile (\<lambda>x. \<not> isWhiteSpace x) cs"
    have s: "c # cs = ?w @ ?r"
      by simp
    have "?r = [] \<or> isWhiteSpace (hd ?r)"
      using hd_dropWhile[of "\<lambda>x. \<not> isWhiteSpace x" cs] by auto
    then have "?X ?r = [] \<or> isWhiteSpace (hd (?X ?r))"
      by (intro spaceAround_hd)
    then have "wordsOf (?X ?w @ ?X ?r) = wordsOf (?X ?w) @ wordsOf (?X ?r)"
      by (rule wordsOf_append)
    then have "wordsOf (?X (c # cs)) = wordsOf (?X ?w) @ wordsOf (?X ?r)"
      unfolding app[symmetric] s[symmetric] .
    with 2(2)[OF False] False show ?thesis
      by simp
  qed
qed


section \<open>Tokens joined by decode and words joined by single spaces\<close>






section \<open>Case folding and words\<close>

lemma wordsOf_map:
  assumes "\<And>c. isWhiteSpace (f c) = isWhiteSpace c"
  shows "wordsOf (map f s) = map (map f) (wordsOf s)"
proof (induction s rule: wordsOf.induct)
  case 1
  then show ?case by simp
next
  case (2 c cs)
  have ws: "isWhiteSpace \<circ> f = isWhiteSpace" and nws: "(\<lambda>x. \<not> isWhiteSpace x) \<circ> f = (\<lambda>x. \<not> isWhiteSpace x)"
    using assms by (auto simp: fun_eq_iff)
  show ?case
  proof (cases "isWhiteSpace c")
    case True
    have "wordsOf (map f (c # cs)) = wordsOf (dropWhile isWhiteSpace (map f cs))"
      using True assms by simp
    also have "\<dots> = wordsOf (map f (dropWhile isWhiteSpace cs))"
      unfolding dropWhile_map ws ..
    also have "\<dots> = map (map f) (wordsOf (dropWhile isWhiteSpace cs))"
      using True by (rule 2(1))
    finally show ?thesis
      using True by simp
  next
    case False
    have "wordsOf (map f (c # cs))
        = (f c # takeWhile (\<lambda>x. \<not> isWhiteSpace x) (map f cs))
          # wordsOf (dropWhile (\<lambda>x. \<not> isWhiteSpace x) (map f cs))"
      using False assms by simp
    also have "\<dots> = map f (c # takeWhile (\<lambda>x. \<not> isWhiteSpace x) cs)
          # wordsOf (map f (dropWhile (\<lambda>x. \<not> isWhiteSpace x) cs))"
      unfolding dropWhile_map takeWhile_map nws by simp
    also have "wordsOf (map f (dropWhile (\<lambda>x. \<not> isWhiteSpace x) cs))
        = map (map f) (wordsOf (dropWhile (\<lambda>x. \<not> isWhiteSpace x) cs))"
      using False by (rule 2(2))
    finally show ?thesis
      using False by simp
  qed
qed

lemma asciiLower_white: "isWhiteSpace (if 65 \<le> c \<and> c \<le> 90 then c + 32 else c) = isWhiteSpace c"
  by (auto simp: isWhiteSpace_def)

lemma wordsOf_asciiLower: "wordsOf (asciiLower s) = map asciiLower (wordsOf s)"
proof -
  have "wordsOf (map (\<lambda>c. if 65 \<le> c \<and> c \<le> 90 then c + 32 else c) s)
      = map (map (\<lambda>c. if 65 \<le> c \<and> c \<le> 90 then c + 32 else c)) (wordsOf s)"
    by (rule wordsOf_map) (rule asciiLower_white)
  then show ?thesis
    by (simp add: asciiLower_def[abs_def])
qed

text \<open>
  Case folding goes word by word, and the tokens of a text are the tokens of its words,
  one word after the other.
\<close>

lemma folded_words:
  "wordsOf (if caseSensitive T then s else asciiLower s)
   = map (\<lambda>w. if caseSensitive T then w else asciiLower w) (wordsOf s)"
  by (simp add: wordsOf_asciiLower)

lemma splitTextTokens_by_words:
  "splitTextTokens asciiLower T s = concat (map (splitTextTokens asciiLower T) (wordsOf s))"
proof -
  let ?F = "\<lambda>w. if caseSensitive T then w else asciiLower w"
  let ?tk = "\<lambda>w. wordsOf (spaceAround (js '','') (spaceAround splitMarks w))"
  have t: "splitTextTokens asciiLower T w = ?tk (?F w)" for w
    by (simp only: splitTextTokens_wordsOf)
  have "splitTextTokens asciiLower T s = concat (map ?tk (wordsOf (?F s)))"
    unfolding t by (rule tokens_by_words)
  also have "wordsOf (?F s) = map ?F (wordsOf s)"
    by (rule folded_words)
  finally show ?thesis
    unfolding t by (simp add: comp_def)
qed

section \<open>When the joined tokens are the normalized text\<close>


section \<open>Encoding and decoding again\<close>











section \<open>The claims\<close>

subsection \<open>C1: the vocabulary after a text build\<close>

text \<open>
  Claim C1, as amended. When the configured special tokens are pairwise distinct and none
  is \<^verbatim>\<open>__proto__\<close>, and no token of the text is the name of a property of
  \<^verbatim>\<open>Object.prototype\<close>, the vocabulary after \<^verbatim>\<open>buildVocabFromInputText(text)\<close> is: the
  special tokens in configured order, then the tokens of the text that are not special
  tokens, each once and in first-seen order, cut off where the size limit is reached;
  the ids are \<open>0, 1, 2, \<dots>\<close> in this order. So ids are unique and contiguous from 0,
  and a token that is already there is not given a second id.
\<close>

theorem buildVocabFromInputText_vocab:
  assumes "distinct (specialTokens T)"
    and "js ''__proto__'' \<notin> set (specialTokens T)"
    and "set (splitTextTokens lc T text) \<inter> set objectPrototypeKeys = {}"
  shows "vocab (buildVocabFromInputText lc T text) =
     (let added = underLimit (maxVocabSize T) (length (specialTokens T))
                    (filter (\<lambda>t. t \<notin> set (specialTokens T))
                       (firstSeen (splitTextTokens lc T text)))
      in zip (specialTokens T @ added)
           (map int [0 ..< length (specialTokens T) + length added]))"
proof -
  let ?v1 = "zip (specialTokens T) (map int [0 ..< length (specialTokens T)])"
  have v1: "vocab (initializeSpecialTokens T) = ?v1"
    using assms(1,2) by (rule initialize_vocab)
  have flt: "filter (\<lambda>t. \<not> propIn ?v1 t) (firstSeen (splitTextTokens lc T text))
           = filter (\<lambda>t. t \<notin> set (specialTokens T)) (firstSeen (splitTextTokens lc T text))"
    using assms(3) by (intro filter_cong) (auto simp: propIn_zip_specials)
  show ?thesis
    unfolding build_text_vocab v1 Let_def flt
    using zip_specials_added[of "specialTokens T"] by simp
qed

text \<open>Six is the limit, the text is case-sensitive and names a special token: two tokens get ids.\<close>

theorem buildVocabFromInputText_vocab_witness:
  "distinct (specialTokens (CustomTokenizer limitedOptions))
   \<and> js ''__proto__'' \<notin> set (specialTokens (CustomTokenizer limitedOptions))
   \<and> set (splitTextTokens asciiLower (CustomTokenizer limitedOptions) (js ''b <CLS> a b c''))
       \<inter> set objectPrototypeKeys = {}
   \<and> vocab (buildVocabFromInputText asciiLower (CustomTokenizer limitedOptions) (js ''b <CLS> a b c''))
       = [(js ''<PAD>'', 0), (js ''<UNK>'', 1), (js ''<CLS>'', 2), (js ''<SEP>'', 3),
          (js ''b'', 4), (js ''a'', 5)]"
proof -
  let ?T = "CustomTokenizer limitedOptions"
  have tokens: "splitTextTokens asciiLower ?T (js ''b <CLS> a b c'')
      = [js ''b'', js ''<CLS>'', js ''a'', js ''b'', js ''c'']"
    by (simp add: split_defs limited_fields)
  have h1: "distinct (specialTokens ?T)"
    by (simp add: limited_fields)
  have h2: "js ''__proto__'' \<notin> set (specialTokens ?T)"
    by (simp add: limited_fields)
  have h3: "set (splitTextTokens asciiLower ?T (js ''b <CLS> a b c'')) \<inter> set objectPrototypeKeys = {}"
    unfolding tokens by (simp add: objectPrototypeKeys_def)
  have "vocab (buildVocabFromInputText asciiLower ?T (js ''b <CLS> a b c''))
       = [(js ''<PAD>'', 0), (js ''<UNK>'', 1), (js ''<CLS>'', 2), (js ''<SEP>'', 3),
          (js ''b'', 4), (js ''a'', 5)]"
    unfolding buildVocabFromInputText_vocab[OF h1 h2 h3] tokens
    by (simp add: limited_fields underLimit_def upt_rec)
  with h1 h2 h3 show ?thesis by (intro conjI)
qed

text \<open>
  The claim as stated fails where the size limit is reached: with the limit 4 the
  token of the text "a" gets no id.
\<close>

theorem buildVocabFromInputText_limit_counterexample:
  "splitTextTokens asciiLower (CustomTokenizer fullOptions) (js ''a'') = [js ''a'']
   \<and> vocab (buildVocabFromInputText asciiLower (CustomTokenizer fullOptions) (js ''a''))
       = [(js ''<PAD>'', 0), (js ''<UNK>'', 1), (js ''<CLS>'', 2), (js ''<SEP>'', 3)]
   \<and> propGet (vocab (buildVocabFromInputText asciiLower (CustomTokenizer fullOptions) (js ''a'')))
         (js ''a'') = Undefined"
proof -
  let ?T = "CustomTokenizer fullOptions"
  have tokens: "splitTextTokens asciiLower ?T (js ''a'') = [js ''a'']"
    by (simp add: split_defs full_fields)
  have v: "vocab (buildVocabFromInputText asciiLower ?T (js ''a''))
       = [(js ''<PAD>'', 0), (js ''<UNK>'', 1), (js ''<CLS>'', 2), (js ''<SEP>'', 3)]"
    unfolding build_text_vocab tokens
    by (simp add: initialize_vocab_default full_fields underLimit_def)
  have "propGet (vocab (buildVocabFromInputText asciiLower ?T (js ''a''))) (js ''a'') = Undefined"
    unfolding v by (simp add: propGet_def objectPrototypeKeys_def)
  with tokens v show ?thesis by (intro conjI)
qed

subsection \<open>C2: the order of the ids after a corpus build\<close>

text \<open>
  Claim C2. After \<^verbatim>\<open>buildVocabFromCorpus(texts)\<close>, of two tokens that are not special
  tokens the one with the smaller id occurs at least as often in the corpus as the
  other, and when both occur equally often it is the one seen first. For the corpus
  \<^verbatim>\<open>["a b b", "b c"]\<close> and the default tokenizer the ids are \<open>b:4, a:5, c:6\<close>.
\<close>

theorem buildVocabFromCorpus_order:
  "(a \<notin> set (specialTokens T) \<and> b \<notin> set (specialTokens T)
    \<and> propGet (vocab (buildVocabFromCorpus lc T texts)) a = Num i
    \<and> propGet (vocab (buildVocabFromCorpus lc T texts)) b = Num j
    \<and> i < j
    \<longrightarrow> count_list (concat (map (splitTextTokens lc T) texts)) b
           \<le> count_list (concat (map (splitTextTokens lc T) texts)) a
       \<and> (count_list (concat (map (splitTextTokens lc T) texts)) a
            = count_list (concat (map (splitTextTokens lc T) texts)) b
          \<longrightarrow> firstOccurrence (concat (map (splitTextTokens lc T) texts)) a
                < firstOccurrence (concat (map (splitTextTokens lc T) texts)) b))
   \<and> vocab (buildVocabFromCorpus asciiLower (CustomTokenizer defaultOptions)
              [js ''a b b'', js ''b c''])
       = [(js ''<PAD>'', 0), (js ''<UNK>'', 1), (js ''<CLS>'', 2), (js ''<SEP>'', 3),
          (js ''b'', 4), (js ''a'', 5), (js ''c'', 6)]"
proof (intro conjI impI)
  assume h: "a \<notin> set (specialTokens T) \<and> b \<notin> set (specialTokens T)
    \<and> propGet (vocab (buildVocabFromCorpus lc T texts)) a = Num i
    \<and> propGet (vocab (buildVocabFromCorpus lc T texts)) b = Num j
    \<and> i < j"
  then have "a \<noteq> b" by auto
  moreover from h have "before a b (sortedTokens (countCorpus lc T texts))"
    by (intro corpus_ids_before[of a T b lc texts i j]) simp_all
  ultimately
  have r: "count_list (concat (map (splitTextTokens lc T) texts)) b
           \<le> count_list (concat (map (splitTextTokens lc T) texts)) a
       \<and> (count_list (concat (map (splitTextTokens lc T) texts)) a
            = count_list (concat (map (splitTextTokens lc T) texts)) b
          \<longrightarrow> firstOccurrence (concat (map (splitTextTokens lc T) texts)) a
                < firstOccurrence (concat (map (splitTextTokens lc T) texts)) b)"
    by (intro sortedTokens_before)
  from r show "count_list (concat (map (splitTextTokens lc T) texts)) b
           \<le> count_list (concat (map (splitTextTokens lc T) texts)) a" ..
  assume "count_list (concat (map (splitTextTokens lc T) texts)) a
            = count_list (concat (map (splitTextTokens lc T) texts)) b"
  with r show "firstOccurrence (concat (map (splitTextTokens lc T) texts)) a
                < firstOccurrence (concat (map (splitTextTokens lc T) texts)) b"
    by blast
next
  show "vocab (buildVocabFromCorpus asciiLower (CustomTokenizer defaultOptions)
              [js ''a b b'', js ''b c''])
       = [(js ''<PAD>'', 0), (js ''<UNK>'', 1), (js ''<CLS>'', 2), (js ''<SEP>'', 3),
          (js ''b'', 4), (js ''a'', 5), (js ''c'', 6)]"
    by (rule build_corpus_example) (simp_all add: default_fields)
qed

text \<open>In the example corpus, "a" (id 5) and "c" (id 6) both occur once, and "a" is seen first.\<close>

theorem buildVocabFromCorpus_order_witness:
  "propGet (vocab (buildVocabFromCorpus asciiLower (CustomTokenizer defaultOptions)
                     [js ''a b b'', js ''b c''])) (js ''a'') = Num 5
   \<and> propGet (vocab (buildVocabFromCorpus asciiLower (CustomTokenizer defaultOptions)
                     [js ''a b b'', js ''b c''])) (js ''c'') = Num 6
   \<and> count_list (concat (map (splitTextTokens asciiLower (CustomTokenizer defaultOptions))
                             [js ''a b b'', js ''b c''])) (js ''a'') = 1
   \<and> count_list (concat (map (splitTextTokens asciiLower (CustomTokenizer defaultOptions))
                             [js ''a b b'', js ''b c''])) (js ''c'') = 1
   \<and> firstOccurrence (concat (map (splitTextTokens asciiLower (CustomTokenizer defaultOptions))
                                  [js ''a b b'', js ''b c''])) (js ''a'')
       < firstOccurrence (concat (map (splitTextTokens asciiLower (CustomTokenizer defaultOptions))
                                    [js ''a b b'', js ''b c''])) (js ''c'')"
proof -
  let ?C = "CustomTokenizer defaultOptions"
  let ?texts = "[js ''a b b'', js ''b c'']"
  let ?toks = "concat (map (splitTextTokens asciiLower ?C) ?texts)"
  note inst = buildVocabFromCorpus_order[of "js ''a''" ?C "js ''c''" asciiLower ?texts 5 6]
  from inst have v: "vocab (buildVocabFromCorpus asciiLower ?C ?texts)
       = [(js ''<PAD>'', 0), (js ''<UNK>'', 1), (js ''<CLS>'', 2), (js ''<SEP>'', 3),
          (js ''b'', 4), (js ''a'', 5), (js ''c'', 6)]"
    by (rule conjunct2)
  have s: "js ''a'' \<notin> set (specialTokens ?C)" "js ''c'' \<notin> set (specialTokens ?C)"
    by (simp_all add: default_fields)
  have g: "propGet (vocab (buildVocabFromCorpus asciiLower ?C ?texts)) (js ''a'') = Num 5"
    "propGet (vocab (buildVocabFromCorpus asciiLower ?C ?texts)) (js ''c'') = Num 6"
    unfolding v by (simp_all add: propGet_def)
  have t: "?toks = [js ''a'', js ''b'', js ''b'', js ''b'', js ''c'']"
    using tokens_corpus_example[of ?C] by (simp add: default_fields)
  have c: "count_list ?toks (js ''a'') = 1" "count_list ?toks (js ''c'') = 1"
    unfolding t by simp_all
  from inst s g c have "firstOccurrence ?toks (js ''a'') < firstOccurrence ?toks (js ''c'')"
    by simp
  with g c show ?thesis by (intro conjI)
qed

subsection \<open>C3: what encode returns\<close>

text \<open>
  Claim C3, at the default tokenizer and the text "the constructor": the three
  required special tokens are in the vocabulary, the splitter gives two tokens, neither
  is in the vocabulary, and \<^verbatim>\<open>encode\<close> returns the id of \<^verbatim>\<open><UNK>\<close> for the first only. For
  "constructor" the read \<^verbatim>\<open>this.vocab[token]\<close> finds \<^verbatim>\<open>Object.prototype.constructor\<close>, which
  is not \<^verbatim>\<open>undefined\<close>, and that value is returned in place of an id.
\<close>

theorem encode_constructor:
  "propGet (vocab (CustomTokenizer defaultOptions)) (js ''<UNK>'') = Num 1
   \<and> propGet (vocab (CustomTokenizer defaultOptions)) (js ''<CLS>'') = Num 2
   \<and> propGet (vocab (CustomTokenizer defaultOptions)) (js ''<SEP>'') = Num 3
   \<and> splitTextTokens asciiLower (CustomTokenizer defaultOptions) (js ''the constructor'')
       = [js ''the'', js ''constructor'']
   \<and> \<not> hasOwn (vocab (CustomTokenizer defaultOptions)) (js ''constructor'')
   \<and> encode asciiLower (CustomTokenizer defaultOptions) (js ''the constructor'')
       = Inr [Num 2, Num 1, Inherited (js ''constructor''), Num 3]"
proof -
  let ?C = "CustomTokenizer defaultOptions"
  have t: "splitTextTokens asciiLower ?C (js ''the constructor'') = [js ''the'', js ''constructor'']"
    by (simp add: split_defs default_fields)
  have g: "propGet (vocab ?C) (js ''<UNK>'') = Num 1" "propGet (vocab ?C) (js ''<CLS>'') = Num 2"
    "propGet (vocab ?C) (js ''<SEP>'') = Num 3"
    by (simp_all add: default_vocab propGet_def)
  have o: "\<not> hasOwn (vocab ?C) (js ''constructor'')"
    by (simp add: default_vocab hasOwn_def)
  have e: "encode asciiLower ?C (js ''the constructor'')
       = Inr [Num 2, Num 1, Inherited (js ''constructor''), Num 3]"
    unfolding encode_def t
    by (simp add: default_vocab propGet_def objectPrototypeKeys_def tokenToId_def)
  from g t o e show ?thesis by (intro conjI)
qed

subsection \<open>C4: when encode fails\<close>

text \<open>
  Claim C4, as amended. \<^verbatim>\<open>encode\<close> reads the three literal names
  \<^verbatim>\<open><UNK> <CLS> <SEP>\<close> from the vocabulary, whatever the configured special tokens
  are, and \<^verbatim>\<open><UNK>\<close> only when the read of a token of the text gives \<^verbatim>\<open>undefined\<close>.
  For every tokenizer and every text:
  \<^item> \<^verbatim>\<open>encode\<close> fails (and returns no sequence) exactly when the read of \<^verbatim>\<open><CLS>\<close> or of
    \<^verbatim>\<open><SEP>\<close> gives \<^verbatim>\<open>undefined\<close>, or the read of \<^verbatim>\<open><UNK>\<close> and the read of some token
    of the text both give \<^verbatim>\<open>undefined\<close>; so with the three literal names in the
    vocabulary it never fails;
  \<^item> the error is "UNK token not found" exactly in the last of these cases, and
    "Required special tokens (CLS, SEP) not found" exactly in the others;
  \<^item> a read gives \<^verbatim>\<open>undefined\<close> exactly when \<^verbatim>\<open>hasToken\<close> is false (the name is neither
    a key of the vocabulary nor a property of \<^verbatim>\<open>Object.prototype\<close>).
\<close>

theorem encode_fails_exactly:
  "((\<exists>e. encode lc T s = Inl e) \<longleftrightarrow>
      propGet (vocab T) (js ''<CLS>'') = Undefined
      \<or> propGet (vocab T) (js ''<SEP>'') = Undefined
      \<or> (propGet (vocab T) (js ''<UNK>'') = Undefined
         \<and> (\<exists>t \<in> set (splitTextTokens lc T s). propGet (vocab T) t = Undefined)))
   \<and> (encode lc T s = Inl UnkNotFound \<longleftrightarrow>
      propGet (vocab T) (js ''<UNK>'') = Undefined
      \<and> (\<exists>t \<in> set (splitTextTokens lc T s). propGet (vocab T) t = Undefined))
   \<and> (encode lc T s = Inl ClsSepNotFound \<longleftrightarrow>
      \<not> (propGet (vocab T) (js ''<UNK>'') = Undefined
         \<and> (\<exists>t \<in> set (splitTextTokens lc T s). propGet (vocab T) t = Undefined))
      \<and> (propGet (vocab T) (js ''<CLS>'') = Undefined
         \<or> propGet (vocab T) (js ''<SEP>'') = Undefined))
   \<and> (propGet (vocab T) k = Undefined \<longleftrightarrow> \<not> hasToken T k)"
proof -
  have "propGet (vocab T) k = Undefined \<longleftrightarrow> \<not> hasToken T k"
    by (simp add: hasToken_def propGet_Undefined_iff)
  with encode_fails_iff[of lc T s] encode_which_error[of lc T s] show ?thesis
    by (intro conjI) blast+
qed

text \<open>
  A tokenizer with the special tokens \<^verbatim>\<open><CLS> <SEP>\<close> alone: the empty text is encoded,
  the text "hi" is not.
\<close>

theorem encode_fails_exactly_witness:
  "hasToken (CustomTokenizer startEndOptions) (js ''<CLS>'')
   \<and> hasToken (CustomTokenizer startEndOptions) (js ''<SEP>'')
   \<and> \<not> hasToken (CustomTokenizer startEndOptions) (js ''<UNK>'')
   \<and> \<not> hasToken (CustomTokenizer startEndOptions) (js ''hi'')
   \<and> \<not> (\<exists>e. encode asciiLower (CustomTokenizer startEndOptions) [] = Inl e)
   \<and> encode asciiLower (CustomTokenizer startEndOptions) (js ''hi'') = Inl UnkNotFound"
proof -
  let ?C = "CustomTokenizer startEndOptions"
  have c: "hasToken ?C (js ''<CLS>'')" and s: "hasToken ?C (js ''<SEP>'')"
    and u: "\<not> hasToken ?C (js ''<UNK>'')" and h: "\<not> hasToken ?C (js ''hi'')"
    by (simp_all add: hasToken_def propIn_def hasOwn_def startEnd_vocab objectPrototypeKeys_def)
  have t0: "splitTextTokens asciiLower ?C [] = []"
    by (rule tokens_empty)
  have t1: "splitTextTokens asciiLower ?C (js ''hi'') = [js ''hi'']"
    by (rule tokens_hi) (simp add: startEnd_fields)
  have g: "propGet (vocab ?C) k = Undefined \<longleftrightarrow> \<not> hasToken ?C k" for k
    using encode_fails_exactly[of asciiLower ?C "[]" k] by blast
  have a: "\<not> (\<exists>e. encode asciiLower ?C [] = Inl e)"
    using encode_fails_exactly[of asciiLower ?C "[]" "js ''<UNK>''"] c s
    unfolding t0 g by simp
  have b: "encode asciiLower ?C (js ''hi'') = Inl UnkNotFound"
    using encode_fails_exactly[of asciiLower ?C "js ''hi''" "js ''<UNK>''"] u h
    unfolding t1 g by simp
  from c s u h a b show ?thesis by (intro conjI)
qed

text \<open>
  The claim as stated fails in both directions. With the special tokens
  \<^verbatim>\<open><CLS> <SEP>\<close> the vocabulary has no unknown token, and the empty text is encoded as
  \<^verbatim>\<open>[0, 1]\<close>. With the special tokens \<^verbatim>\<open>[PAD] [UNK] [CLS] [SEP]\<close> the vocabulary has the
  unknown, start and end tokens under their configured names, and \<^verbatim>\<open>encode\<close> fails on
  the empty text and on the text "hello".
\<close>

theorem encode_configured_names_counterexample:
  "\<not> hasToken (CustomTokenizer startEndOptions) (js ''<UNK>'')
   \<and> encode asciiLower (CustomTokenizer startEndOptions) [] = Inr [Num 0, Num 1]
   \<and> hasToken (CustomTokenizer bracketOptions) (js ''[UNK]'')
   \<and> hasToken (CustomTokenizer bracketOptions) (js ''[CLS]'')
   \<and> hasToken (CustomTokenizer bracketOptions) (js ''[SEP]'')
   \<and> encode asciiLower (CustomTokenizer bracketOptions) [] = Inl ClsSepNotFound
   \<and> encode asciiLower (CustomTokenizer bracketOptions) (js ''hello'') = Inl UnkNotFound"
proof -
  let ?S = "CustomTokenizer startEndOptions"
  let ?C = "CustomTokenizer bracketOptions"
  have u: "\<not> hasToken ?S (js ''<UNK>'')"
    by (simp add: hasToken_def propIn_def hasOwn_def startEnd_vocab objectPrototypeKeys_def)
  have e0: "encode asciiLower ?S [] = Inr [Num 0, Num 1]"
    by (simp add: encode_def tokens_empty startEnd_vocab propGet_def)
  have t: "splitTextTokens asciiLower ?C (js ''hello'') = [js ''hello'']"
    by (rule tokens_hello) (simp add: bracket_fields)
  have h: "hasToken ?C (js ''[UNK]'')" "hasToken ?C (js ''[CLS]'')" "hasToken ?C (js ''[SEP]'')"
    by (simp_all add: hasToken_def propIn_def hasOwn_def bracket_vocab)
  have e1: "encode asciiLower ?C [] = Inl ClsSepNotFound"
    by (simp add: encode_def tokens_empty bracket_vocab propGet_def objectPrototypeKeys_def)
  have e2: "encode asciiLower ?C (js ''hello'') = Inl UnkNotFound"
    unfolding encode_def t
    by (simp add: bracket_vocab propGet_def objectPrototypeKeys_def tokenToId_def)
  from u e0 h e1 e2 show ?thesis by (intro conjI)
qed

subsection \<open>C5: the reverse vocabulary\<close>

text \<open>
  Claim C5, as amended. When the configured special tokens are pairwise distinct and none
  is \<^verbatim>\<open>__proto__\<close>, then after construction and after every sequence of build
  operations the reverse vocabulary is the inverse of the vocabulary:
  \<^verbatim>\<open>reverseVocab[i]\<close> is \<open>t\<close> exactly when \<^verbatim>\<open>vocab[t]\<close> is the number \<open>i\<close>, and no two
  tokens have the same id.
\<close>

theorem reverseVocab_inverse:
  assumes "distinct (specialTokens (CustomTokenizer opts))"
    and "js ''__proto__'' \<notin> set (specialTokens (CustomTokenizer opts))"
  shows "(reverseVocab (runBuilds lc (CustomTokenizer opts) ops) i = Some t
          \<longleftrightarrow> propGet (vocab (runBuilds lc (CustomTokenizer opts) ops)) t = Num i)
       \<and> distinct (map snd (vocab (runBuilds lc (CustomTokenizer opts) ops)))"
  using assms by (rule runBuilds_inverse)

text \<open>The default tokenizer after \<^verbatim>\<open>buildVocabFromInputText("Hello world!")\<close>.\<close>

theorem reverseVocab_inverse_witness:
  "distinct (specialTokens (CustomTokenizer defaultOptions))
   \<and> js ''__proto__'' \<notin> set (specialTokens (CustomTokenizer defaultOptions))
   \<and> propGet (vocab (runBuilds asciiLower (CustomTokenizer defaultOptions)
                       [InputText (js ''Hello world!'')])) (js ''world'') = Num 5
   \<and> reverseVocab (runBuilds asciiLower (CustomTokenizer defaultOptions)
                     [InputText (js ''Hello world!'')]) 5 = Some (js ''world'')"
proof -
  let ?C = "CustomTokenizer defaultOptions"
  let ?ops = "[InputText (js ''Hello world!'')]"
  have h1: "distinct (specialTokens ?C)"
    by (simp add: default_fields)
  have h2: "js ''__proto__'' \<notin> set (specialTokens ?C)"
    by (simp add: default_fields)
  have run: "runBuilds asciiLower ?C ?ops = buildVocabFromInputText asciiLower ?C (js ''Hello world!'')"
    by (simp only: runBuilds_def foldl_Cons foldl_Nil applyBuild.simps)
  have v: "vocab (buildVocabFromInputText asciiLower ?C (js ''Hello world!'')) =
     [(js ''<PAD>'', 0), (js ''<UNK>'', 1), (js ''<CLS>'', 2), (js ''<SEP>'', 3),
      (js ''hello'', 4), (js ''world'', 5), (js ''!'', 6)]"
    by (rule build_hello_world_vocab) (simp_all add: default_fields)
  have g: "propGet (vocab (runBuilds asciiLower ?C ?ops)) (js ''world'') = Num 5"
    unfolding run v by (simp add: propGet_def)
  with reverseVocab_inverse[OF h1 h2, of asciiLower ?ops 5 "js ''world''"]
  have "reverseVocab (runBuilds asciiLower ?C ?ops) 5 = Some (js ''world'')"
    by blast
  with h1 h2 g show ?thesis by (intro conjI)
qed

text \<open>
  The claim as stated fails for a special token configured twice: after
  \<^verbatim>\<open>buildVocabFromInputText("x")\<close>, \<^verbatim>\<open>vocab["a"]\<close> is 2 and \<^verbatim>\<open>reverseVocab[2]\<close> is "x".
\<close>

theorem reverseVocab_repeated_counterexample:
  "propGet (vocab (runBuilds asciiLower (CustomTokenizer repeatedOptions) [InputText (js ''x'')]))
     (js ''a'') = Num 2
   \<and> reverseVocab (runBuilds asciiLower (CustomTokenizer repeatedOptions) [InputText (js ''x'')]) 2
       = Some (js ''x'')"
proof -
  let ?T = "CustomTokenizer repeatedOptions"
  have tokens: "splitTextTokens asciiLower ?T (js ''x'') = [js ''x'']"
    by (simp add: split_defs repeated_fields)
  have v: "vocab (buildVocabFromInputText asciiLower ?T (js ''x''))
       = [(js ''a'', 2), (js ''b'', 1), (js ''x'', 2)]"
    unfolding build_text_vocab tokens
    by (simp add: initialize_vocab_repeated repeated_fields underLimit_def propIn_def hasOwn_def
        objectPrototypeKeys_def)
  have g: "propGet (vocab (buildVocabFromInputText asciiLower ?T (js ''x''))) (js ''a'') = Num 2"
    unfolding v by (simp add: propGet_def)
  have r: "reverseVocab (buildVocabFromInputText asciiLower ?T (js ''x'')) 2 = Some (js ''x'')"
    unfolding build_text_reverse v
    by (simp add: ownEntries_def isArrayIndex_def)
  from g r show ?thesis
    by (simp only: runBuilds_def foldl_Cons foldl_Nil applyBuild.simps)
qed

subsection \<open>C6: decode after encode\<close>




subsection \<open>C7: the size limit\<close>



subsection \<open>C8: decode and missing ids\<close>

text \<open>
  Claim C8. \<^verbatim>\<open>decode\<close> is a total function from integer sequences to strings: it has no
  failure. For every tokenizer and every sequence of ids:
  \<^item> the ids whose token is a configured special token are dropped wherever they stand;
  \<^item> every other id contributes its token, and an id that the reverse vocabulary lacks
    contributes the word "undefined": the characters of the result that are no white
    space are those of these tokens, one token after the other;
  \<^item> when none of these tokens is empty or ends in white space, the result is the
    tokens joined (\<open>joinTokens\<close>: a single space before every token but the first,
    no space before a punctuation mark), trimmed;
  \<^item> after construction and any builds this is so for every sequence of ids, and
    nothing is trimmed;
  \<^item> when none of the tokens is a punctuation mark, the result is the tokens joined by
    single spaces, trimmed; ids that are all missing decode to that many words
    "undefined"; and whenever some id is missing, the word "undefined" is part of the
    result.
\<close>

theorem decode_undefined_tokens:
  "decode T ids = decode T (filter (\<lambda>i. reverseVocab T i \<notin> Some ` set (specialTokens T)) ids)
   \<and> filter (\<lambda>c. \<not> isWhiteSpace c) (decode T ids)
       = concat (map (\<lambda>i. filter (\<lambda>c. \<not> isWhiteSpace c) (tokenString (reverseVocab T i)))
           (filter (\<lambda>i. reverseVocab T i \<notin> Some ` set (specialTokens T)) ids))
   \<and> ((\<forall>i \<in> set ids. reverseVocab T i \<notin> Some ` set (specialTokens T) \<longrightarrow>
          tokenString (reverseVocab T i) \<noteq> []
          \<and> \<not> isWhiteSpace (last (tokenString (reverseVocab T i))))
        \<longrightarrow> decode T ids
             = trim (joinTokens (map (reverseVocab T)
                 (filter (\<lambda>i. reverseVocab T i \<notin> Some ` set (specialTokens T)) ids))))
   \<and> decode (runBuilds lc (CustomTokenizer opts) ops) ids
       = joinTokens (map (reverseVocab (runBuilds lc (CustomTokenizer opts) ops))
           (filter (\<lambda>i. reverseVocab (runBuilds lc (CustomTokenizer opts) ops) i
                      \<notin> Some ` set (specialTokens (runBuilds lc (CustomTokenizer opts) ops))) ids))
   \<and> ((\<forall>i \<in> set ids. reverseVocab T i \<notin> Some ` set (specialTokens T)
                      \<and> \<not> isPunctuation (reverseVocab T i))
        \<longrightarrow> decode T ids = trim (joinSpace (map (\<lambda>i. tokenString (reverseVocab T i)) ids)))
   \<and> ((\<forall>i \<in> set ids. reverseVocab T i = None)
        \<longrightarrow> decode T ids = joinSpace (replicate (length ids) (js ''undefined'')))
   \<and> ((\<exists>i \<in> set ids. reverseVocab T i = None)
        \<longrightarrow> (\<exists>pre post. decode T ids = pre @ js ''undefined'' @ post))"
  using decode_filter_special[of T ids] decode_visible[of T ids] decode_joinTokens[of ids T]
    runBuilds_decode[of lc opts ops ids] decode_words[of ids T] decode_undefined[of ids T]
    decode_contains_undefined[of ids T]
  by blast

text \<open>
  With the vocabulary of "Hello world!" (where 6 is the id of "!"), the ids 99 and -1
  are missing.
\<close>

theorem decode_undefined_tokens_witness:
  "decode (runBuilds asciiLower (CustomTokenizer defaultOptions) [InputText (js ''Hello world!'')])
     [2, 4, 99, 5, 3] = js ''hello undefined world''
   \<and> decode (runBuilds asciiLower (CustomTokenizer defaultOptions) [InputText (js ''Hello world!'')])
     [99, -1] = js ''undefined undefined''
   \<and> decode (runBuilds asciiLower (CustomTokenizer defaultOptions) [InputText (js ''Hello world!'')])
     [2, 4, 6, 99, 6, 3] = js ''hello! undefined!''
   \<and> trim (joinTokens [Some (js ''hello''), Some (js ''!''), None, Some (js ''!'')])
       = js ''hello! undefined!''
   \<and> (\<exists>pre post.
        decode (runBuilds asciiLower (CustomTokenizer defaultOptions) [InputText (js ''Hello world!'')])
          [4, 6, 99] = pre @ js ''undefined'' @ post)"
proof -
  let ?C = "CustomTokenizer defaultOptions"
  let ?T = "runBuilds asciiLower ?C [InputText (js ''Hello world!'')]"
  have run: "?T = buildVocabFromInputText asciiLower ?C (js ''Hello world!'')"
    by (simp only: runBuilds_def foldl_Cons foldl_Nil applyBuild.simps)
  have r: "reverseVocab ?T =
     [0 \<mapsto> js ''<PAD>'', 1 \<mapsto> js ''<UNK>'', 2 \<mapsto> js ''<CLS>'', 3 \<mapsto> js ''<SEP>'',
      4 \<mapsto> js ''hello'', 5 \<mapsto> js ''world'', 6 \<mapsto> js ''!'']"
    unfolding run by (rule build_hello_world_reverse) (simp_all add: default_fields)
  have s: "specialTokens ?T = [js ''<PAD>'', js ''<UNK>'', js ''<CLS>'', js ''<SEP>'']"
    by (simp add: default_fields)
  have f: "filter (\<lambda>i. reverseVocab ?T i \<notin> Some ` set (specialTokens ?T)) [2, 4, 99, 5, 3] = [4, 99, 5]"
    unfolding r s by simp
  have h2: "\<forall>i \<in> set [4, 99, 5]. reverseVocab ?T i \<notin> Some ` set (specialTokens ?T)
                      \<and> \<not> isPunctuation (reverseVocab ?T i)"
    unfolding r s by (simp add: isPunctuation_def tokenString_def)
  have h3: "\<forall>i \<in> set [99, -1]. reverseVocab ?T i = None"
    unfolding r by simp
  have "decode ?T [2, 4, 99, 5, 3] = decode ?T [4, 99, 5]"
    using decode_undefined_tokens[of ?T "[2, 4, 99, 5, 3]"] unfolding f by blast
  also have "\<dots> = trim (joinSpace (map (\<lambda>i. tokenString (reverseVocab ?T i)) [4, 99, 5]))"
    using decode_undefined_tokens[of ?T "[4, 99, 5]"] h2 by blast
  also have "\<dots> = js ''hello undefined world''"
    unfolding r by (simp add: tokenString_def trim_def trimStart_def trimEnd_def isWhiteSpace_def)
  finally have a: "decode ?T [2, 4, 99, 5, 3] = js ''hello undefined world''" .
  have "decode ?T [99, -1] = joinSpace (replicate (length [99, -1 :: int]) (js ''undefined''))"
    using decode_undefined_tokens[of ?T "[99, -1]"] h3 by blast
  also have "\<dots> = js ''undefined undefined''"
    by (simp add: numeral_2_eq_2)
  finally have b: "decode ?T [99, -1] = js ''undefined undefined''" .
  have k: "map (reverseVocab ?T)
       (filter (\<lambda>i. reverseVocab ?T i \<notin> Some ` set (specialTokens ?T)) [2, 4, 6, 99, 6, 3])
     = [Some (js ''hello''), Some (js ''!''), None, Some (js ''!'')]"
    unfolding r s by simp
  have j: "joinTokens [Some (js ''hello''), Some (js ''!''), None, Some (js ''!'')]
     = js ''hello! undefined!''"
    by (simp add: joinTokens_def tokenString_def isPunctuation_def decodeMarks_def)
  have "decode ?T [2, 4, 6, 99, 6, 3] = joinTokens (map (reverseVocab ?T)
       (filter (\<lambda>i. reverseVocab ?T i \<notin> Some ` set (specialTokens ?T)) [2, 4, 6, 99, 6, 3]))"
    using decode_undefined_tokens[of ?T "[2, 4, 6, 99, 6, 3]" asciiLower defaultOptions
        "[InputText (js ''Hello world!'')]"]
    by blast
  then have c: "decode ?T [2, 4, 6, 99, 6, 3] = js ''hello! undefined!''"
    unfolding k j .
  have h1: "\<forall>i \<in> set [2, 4, 6, 99, 6, 3]. reverseVocab ?T i \<notin> Some ` set (specialTokens ?T) \<longrightarrow>
          tokenString (reverseVocab ?T i) \<noteq> []
          \<and> \<not> isWhiteSpace (last (tokenString (reverseVocab ?T i)))"
    unfolding r s by (simp add: tokenString_def isWhiteSpace_def)
  have "decode ?T [2, 4, 6, 99, 6, 3] = trim (joinTokens (map (reverseVocab ?T)
       (filter (\<lambda>i. reverseVocab ?T i \<notin> Some ` set (specialTokens ?T)) [2, 4, 6, 99, 6, 3])))"
    using decode_undefined_tokens[of ?T "[2, 4, 6, 99, 6, 3]"] h1 by blast
  then have d: "trim (joinTokens [Some (js ''hello''), Some (js ''!''), None, Some (js ''!'')])
       = js ''hello! undefined!''"
    unfolding k c ..
  have "\<exists>i \<in> set [4, 6, 99]. reverseVocab ?T i = None"
    unfolding r by simp
  with decode_undefined_tokens[of ?T "[4, 6, 99]"]
  have e: "\<exists>pre post. decode ?T [4, 6, 99] = pre @ js ''undefined'' @ post"
    by blast
  from a b c d e show ?thesis by (intro conjI)
qed

subsection \<open>C9: fromJSON after toJSON\<close>

text \<open>
  Claim C9. For every tokenizer \<open>T\<close>, \<^verbatim>\<open>fromJSON(T.toJSON())\<close> has a vocabulary with the
  same properties in the same order of enumeration as that of \<open>T\<close> (so every property
  read gives the same value), the same reverse vocabulary, special-token list and
  case-sensitivity flag, and no size limit, whatever the limit of \<open>T\<close> is.
\<close>

theorem fromJSON_toJSON:
  assumes "reachable lc T"
  shows "ownEntries (vocab (fromJSON (toJSON T))) = ownEntries (vocab T)
       \<and> propGet (vocab (fromJSON (toJSON T))) = propGet (vocab T)
       \<and> reverseVocab (fromJSON (toJSON T)) = reverseVocab T
       \<and> specialTokens (fromJSON (toJSON T)) = specialTokens T
       \<and> caseSensitive (fromJSON (toJSON T)) = caseSensitive T
       \<and> maxVocabSize (fromJSON (toJSON T)) = None"
proof -
  from reachable_invariant[OF assms] obtain X
    where d: "distinct (map fst (vocab T))" and X: "T = buildReverseVocabFromVocab X"
    by blast
  have vX: "vocab X = vocab T"
    unfolding X by (rule buildReverse_fields(1)[symmetric])
  have v: "vocab (fromJSON (toJSON T)) = ownEntries (vocab T)"
    using d by (simp add: fromJSON_fields toJSON_def spread_distinct)
  have e: "ownEntries (vocab (fromJSON (toJSON T))) = ownEntries (vocab T)"
    unfolding v by (rule ownEntries_idem)
  have g: "propGet (vocab (fromJSON (toJSON T))) = propGet (vocab T)"
    unfolding v using d by (rule propGet_ownEntries)
  obtain Y where Y: "fromJSON (toJSON T) = buildReverseVocabFromVocab Y"
    using fromJSON_is_reverse by blast
  have vY: "vocab Y = vocab (fromJSON (toJSON T))"
    unfolding Y by (rule buildReverse_fields(1)[symmetric])
  have "reverseVocab (fromJSON (toJSON T))
      = foldl (\<lambda>r (token, id). r(id \<mapsto> token)) Map.empty (ownEntries (vocab Y))"
    unfolding Y by (rule reverse_of_vocab)
  also have "\<dots> = foldl (\<lambda>r (token, id). r(id \<mapsto> token)) Map.empty (ownEntries (vocab X))"
    unfolding vY e vX ..
  also have "\<dots> = reverseVocab T"
    unfolding X by (rule reverse_of_vocab[symmetric])
  finally have r: "reverseVocab (fromJSON (toJSON T)) = reverseVocab T" .
  have f: "specialTokens (fromJSON (toJSON T)) = specialTokens T"
    "caseSensitive (fromJSON (toJSON T)) = caseSensitive T"
    "maxVocabSize (fromJSON (toJSON T)) = None"
    by (simp_all add: fromJSON_fields toJSON_def)
  from e g r f show ?thesis by (intro conjI)
qed

text \<open>A tokenizer with the limit 6 comes back without a limit.\<close>

theorem fromJSON_toJSON_witness:
  "reachable asciiLower
     (applyBuild asciiLower (CustomTokenizer limitedOptions) (InputText (js ''b <CLS> a b c'')))
   \<and> maxVocabSize
       (applyBuild asciiLower (CustomTokenizer limitedOptions) (InputText (js ''b <CLS> a b c'')))
       = Some 6
   \<and> maxVocabSize (fromJSON (toJSON
       (applyBuild asciiLower (CustomTokenizer limitedOptions) (InputText (js ''b <CLS> a b c'')))))
       = None
   \<and> reverseVocab (fromJSON (toJSON
       (applyBuild asciiLower (CustomTokenizer limitedOptions) (InputText (js ''b <CLS> a b c'')))))
       = reverseVocab
       (applyBuild asciiLower (CustomTokenizer limitedOptions) (InputText (js ''b <CLS> a b c'')))"
proof -
  let ?T = "applyBuild asciiLower (CustomTokenizer limitedOptions) (InputText (js ''b <CLS> a b c''))"
  have h: "reachable asciiLower ?T"
    by (intro reachable.built reachable.constructed)
  have m: "maxVocabSize ?T = Some 6"
    by (simp add: limited_fields)
  from fromJSON_toJSON[OF h]
  have "maxVocabSize (fromJSON (toJSON ?T)) = None"
    and "reverseVocab (fromJSON (toJSON ?T)) = reverseVocab ?T"
    by blast+
  with h m show ?thesis by (intro conjI)
qed

subsection \<open>C10: the special tokens in the vocabulary\<close>

text \<open>
  Claim C10, as amended. After construction and after every sequence of build
  operations, a configured special token other than \<^verbatim>\<open>__proto__\<close> is in the
  vocabulary under the index of its last occurrence in the configured list, which is
  its configured index when the list has no duplicates; no size limit prevents this.
  When the special tokens are pairwise distinct and none is \<^verbatim>\<open>__proto__\<close>, the
  vocabulary size is at least their number, so it exceeds a limit that is smaller.
\<close>

theorem special_tokens_present:
  shows "(i < length (specialTokens (CustomTokenizer opts))
          \<and> specialTokens (CustomTokenizer opts) ! i \<noteq> js ''__proto__''
          \<and> specialTokens (CustomTokenizer opts) ! i
               \<notin> set (drop (Suc i) (specialTokens (CustomTokenizer opts)))
          \<longrightarrow> propGet (vocab (runBuilds lc (CustomTokenizer opts) ops))
                (specialTokens (CustomTokenizer opts) ! i) = Num (int i))
       \<and> (distinct (specialTokens (CustomTokenizer opts))
          \<and> js ''__proto__'' \<notin> set (specialTokens (CustomTokenizer opts))
          \<longrightarrow> int (length (specialTokens (CustomTokenizer opts)))
                \<le> vocabSize (runBuilds lc (CustomTokenizer opts) ops))"
  by (rule runBuilds_special)

text \<open>The limit 2 is below the four default special tokens; all four are there after a build.\<close>

theorem special_tokens_present_witness:
  "3 < length (specialTokens (CustomTokenizer smallLimitOptions))
   \<and> specialTokens (CustomTokenizer smallLimitOptions) ! 3 \<noteq> js ''__proto__''
   \<and> specialTokens (CustomTokenizer smallLimitOptions) ! 3
        \<notin> set (drop (Suc 3) (specialTokens (CustomTokenizer smallLimitOptions)))
   \<and> distinct (specialTokens (CustomTokenizer smallLimitOptions))
   \<and> js ''__proto__'' \<notin> set (specialTokens (CustomTokenizer smallLimitOptions))
   \<and> maxVocabSize (CustomTokenizer smallLimitOptions) = Some 2
   \<and> propGet (vocab (runBuilds asciiLower (CustomTokenizer smallLimitOptions)
                       [InputText (js ''Hello world!'')])) (js ''<SEP>'') = Num 3
   \<and> 4 \<le> vocabSize (runBuilds asciiLower (CustomTokenizer smallLimitOptions)
                       [InputText (js ''Hello world!'')])"
proof -
  let ?C = "CustomTokenizer smallLimitOptions"
  let ?ops = "[InputText (js ''Hello world!'')]"
  have h1: "3 < length (specialTokens ?C)"
    and h2: "specialTokens ?C ! 3 \<noteq> js ''__proto__''"
    and h3: "specialTokens ?C ! 3 \<notin> set (drop (Suc 3) (specialTokens ?C))"
    and h4: "distinct (specialTokens ?C)"
    and h5: "js ''__proto__'' \<notin> set (specialTokens ?C)"
    and h6: "maxVocabSize ?C = Some 2"
    by (simp_all add: small_fields)
  have sep: "specialTokens ?C ! 3 = js ''<SEP>''"
    and len: "int (length (specialTokens ?C)) = 4"
    by (simp_all add: small_fields)
  from special_tokens_present[of 3 smallLimitOptions asciiLower ?ops] h1 h2 h3 h4 h5
  have "propGet (vocab (runBuilds asciiLower ?C ?ops)) (specialTokens ?C ! 3) = Num (int 3)"
    and "int (length (specialTokens ?C)) \<le> vocabSize (runBuilds asciiLower ?C ?ops)"
    by blast+
  then have "propGet (vocab (runBuilds asciiLower ?C ?ops)) (js ''<SEP>'') = Num 3"
    and "4 \<le> vocabSize (runBuilds asciiLower ?C ?ops)"
    unfolding sep len by simp_all
  with h1 h2 h3 h4 h5 h6 show ?thesis by (intro conjI)
qed

text \<open>
  The claim as stated fails for a special token configured twice: "a" is configured
  at index 0 and has the id 2.
\<close>

theorem special_tokens_repeated_counterexample:
  "specialTokens (CustomTokenizer repeatedOptions) ! 0 = js ''a''
   \<and> propGet (vocab (CustomTokenizer repeatedOptions)) (js ''a'') = Num 2"
proof -
  have "vocab (CustomTokenizer repeatedOptions) = [(js ''a'', 2), (js ''b'', 1)]"
    unfolding CustomTokenizer_vocab
    by (rule initialize_vocab_repeated) (simp add: repeated_fields)
  then show ?thesis
    by (simp add: repeated_fields propGet_def)
qed

end
